theory Spec2Isabelle
  imports Main "HOL-Library.Multiset"
begin

section \<open>Strings of the script\<close>

text \<open>
  The script \<^verbatim>\<open>parse_logs.js\<close> works on JavaScript strings. The model uses
  \<^typ>\<open>string\<close>, whose characters are the 8-bit code units (ASCII and Latin-1); the
  character classes below are the ones JavaScript defines, restricted to that range.
\<close>

definition LF :: char where
  "LF = CHR 0x0A"

text \<open>The regular-expression dot matches every character but a line terminator.\<close>

definition isLineTerminator :: "char \<Rightarrow> bool" where
  "isLineTerminator c \<longleftrightarrow> c = CHR 0x0A \<or> c = CHR 0x0D"

text \<open>\<^verbatim>\<open>\s\<close> and \<^verbatim>\<open>String.prototype.trim\<close>: white space and line terminators.\<close>

definition isWhiteSpace :: "char \<Rightarrow> bool" where
  "isWhiteSpace c \<longleftrightarrow>
     c = CHR 0x09 \<or> c = CHR 0x0A \<or> c = CHR 0x0B \<or> c = CHR 0x0C \<or> c = CHR 0x0D \<or>
     c = CHR 0x20 \<or> c = CHR 0xA0"

definition trim :: "string \<Rightarrow> string" where
  "trim s = rev (dropWhile isWhiteSpace (rev (dropWhile isWhiteSpace s)))"

text \<open>
  The \<^verbatim>\<open>i\<close> flag compares characters after canonicalisation to upper case. No
  character outside ASCII canonicalises to an ASCII letter, and the literals of the
  script's expressions are ASCII words, so the ASCII table decides every comparison.
\<close>

definition canonicalize :: "char \<Rightarrow> char" where
  "canonicalize c =
     (case map_of (zip ''abcdefghijklmnopqrstuvwxyz'' ''ABCDEFGHIJKLMNOPQRSTUVWXYZ'') c of
        Some u \<Rightarrow> u
      | None \<Rightarrow> c)"

text \<open>\<open>startsWith lit s\<close>: the literal \<open>lit\<close> matches at the start of \<open>s\<close>.\<close>

definition startsWith :: "string \<Rightarrow> string \<Rightarrow> bool" where
  "startsWith lit s \<longleftrightarrow> take (length lit) s = lit"

definition startsWithI :: "string \<Rightarrow> string \<Rightarrow> bool" where
  "startsWithI lit s \<longleftrightarrow>
     length lit \<le> length s \<and> map canonicalize (take (length lit) s) = map canonicalize lit"

text \<open>The greedy group \<^verbatim>\<open>(.*)\<close> at the start of \<open>s\<close>: the rest of the line.\<close>

definition dotStar :: "string \<Rightarrow> string" where
  "dotStar s = takeWhile (\<lambda>c. \<not> isLineTerminator c) s"

text \<open>\<open>contains s needle\<close>: \<open>needle\<close> occurs in \<open>s\<close>.\<close>

fun contains :: "string \<Rightarrow> string \<Rightarrow> bool" where
  "contains [] needle = (needle = [])"
| "contains (c # cs) needle = (startsWith needle (c # cs) \<or> contains cs needle)"

section \<open>Regular-expression operations\<close>

text \<open>
  A matcher tries one expression at the start of its argument and returns the length of
  the match and the text of group 1. \<^verbatim>\<open>String.prototype.match\<close> and
  \<^verbatim>\<open>String.prototype.replace\<close> without the \<^verbatim>\<open>g\<close> flag try the positions from
  left to right and stop at the first match.
\<close>

type_synonym matcher = "string \<Rightarrow> (nat \<times> string) option"

fun matchFirst :: "matcher \<Rightarrow> string \<Rightarrow> string option" where
  "matchFirst m [] = map_option snd (m [])"
| "matchFirst m (c # cs) =
     (case m (c # cs) of Some (n, g) \<Rightarrow> Some g | None \<Rightarrow> matchFirst m cs)"

fun replaceFirst :: "matcher \<Rightarrow> (string \<Rightarrow> string) \<Rightarrow> string \<Rightarrow> string" where
  "replaceFirst m f [] = (case m [] of Some (n, g) \<Rightarrow> f g | None \<Rightarrow> [])"
| "replaceFirst m f (c # cs) =
     (case m (c # cs) of
        Some (n, g) \<Rightarrow> f g @ drop n (c # cs)
      | None \<Rightarrow> c # replaceFirst m f cs)"

text \<open>
  With the \<^verbatim>\<open>g\<close> flag every match is replaced, the search going on after the end of
  the match (one character further after an empty match).
\<close>

function replaceAll :: "matcher \<Rightarrow> (string \<Rightarrow> string) \<Rightarrow> string \<Rightarrow> string" where
  "replaceAll m f [] = (case m [] of Some (n, g) \<Rightarrow> f g | None \<Rightarrow> [])"
| "replaceAll m f (c # cs) =
     (case m (c # cs) of
        None \<Rightarrow> c # replaceAll m f cs
      | Some (n, g) \<Rightarrow>
          if n = 0 then f g @ c # replaceAll m f cs
          else f g @ replaceAll m f (drop n (c # cs)))"
  by pat_completeness auto
termination
  by (relation "measure (\<lambda>(m, f, s). length s)") auto

text \<open>\<^verbatim>\<open>/[\n|, ]Fixes(.*)/i\<close>\<close>

definition reFixes :: matcher where
  "reFixes s =
     (case s of
        [] \<Rightarrow> None
      | c # t \<Rightarrow>
          if (c = LF \<or> c = CHR ''|'' \<or> c = CHR '','' \<or> c = CHR '' '') \<and> startsWithI ''Fixes'' t
          then Some (6 + length (dotStar (drop 5 t)), dotStar (drop 5 t))
          else None)"

text \<open>\<^verbatim>\<open>/\nSee(.*)/i\<close>\<close>

definition reSee :: matcher where
  "reSee s =
     (case s of
        [] \<Rightarrow> None
      | c # t \<Rightarrow>
          if c = LF \<and> startsWithI ''See'' t
          then Some (4 + length (dotStar (drop 3 t)), dotStar (drop 3 t))
          else None)"

text \<open>
  \<^verbatim>\<open>/\nProps(.*)./i\<close>: the group first takes the rest of the line and gives its last
  character back to the final dot, so the line must hold a character after the word.
\<close>

definition propsRegex :: matcher where
  "propsRegex s =
     (case s of
        [] \<Rightarrow> None
      | c # t \<Rightarrow>
          if c = LF \<and> startsWithI ''Props'' t \<and> dotStar (drop 5 t) \<noteq> []
          then Some (6 + length (dotStar (drop 5 t)), butlast (dotStar (drop 5 t)))
          else None)"

text \<open>\<^verbatim>\<open>/@(.*)/\<close> and \<^verbatim>\<open>/#(.*)/\<close>\<close>

definition reAfter :: "char \<Rightarrow> matcher" where
  "reAfter k s =
     (case s of
        [] \<Rightarrow> None
      | c # t \<Rightarrow> if c = k then Some (1 + length (dotStar t), dotStar t) else None)"

text \<open>\<^verbatim>\<open>/\n\n\n+/g\<close>\<close>

definition reBlankLines :: matcher where
  "reBlankLines s =
     (if startsWith [LF, LF, LF] s then Some (length (takeWhile (\<lambda>c. c = LF) s), []) else None)"

definition collapseBlankLines :: "string \<Rightarrow> string" where
  "collapseBlankLines s = replaceAll reBlankLines (\<lambda>g. [LF, LF]) s"

text \<open>
  \<^verbatim>\<open>split(/\s*,\s*/)\<close>: the pieces between the separators, a separator being a comma
  with the white space around it. The piece in progress is kept reversed in \<open>acc\<close>.
\<close>

definition reComma :: matcher where
  "reComma s =
     (case dropWhile isWhiteSpace s of
        [] \<Rightarrow> None
      | c # t \<Rightarrow>
          if c = CHR '',''
          then Some (length (takeWhile isWhiteSpace s) + 1 + length (takeWhile isWhiteSpace t), [])
          else None)"

function splitAcc :: "string \<Rightarrow> string \<Rightarrow> string list" where
  "splitAcc acc [] = [rev acc]"
| "splitAcc acc (c # cs) =
     (case reComma (c # cs) of
        None \<Rightarrow> splitAcc (c # acc) cs
      | Some (n, g) \<Rightarrow> rev acc # splitAcc [] (drop n (c # cs)))"
  by pat_completeness auto
termination
  by (relation "measure (\<lambda>(acc, s). length s)")
    (auto simp: reComma_def split: list.splits if_splits)

definition split :: "string \<Rightarrow> string list" where
  "split s = splitAcc [] s"

text \<open>\<^verbatim>\<open>Array.prototype.join\<close> on an array of strings.\<close>

fun join :: "string \<Rightarrow> string list \<Rightarrow> string" where
  "join sep [] = []"
| "join sep [x] = x"
| "join sep (x # y # ys) = x @ sep @ join sep (y # ys)"

section \<open>Changesets\<close>

record changeset =
  revision :: string
  author :: string
  related :: "string list"
  component :: "string list"
  description :: string
  props :: "string list"

text \<open>
  A row \<^verbatim>\<open>tr.verbose\<close> of the log page, as the selectors of the script read it: the
  text of its cell \<^verbatim>\<open>td.rev\<close>, the text of its cell \<^verbatim>\<open>td.author\<close> and the
  content of its cell \<^verbatim>\<open>td.log\<close>, a sequence of plain text, code segments
  (\<^verbatim>\<open>tt\<close>) and ticket links (\<^verbatim>\<open>a.ticket\<close>). A cell the row does not have reads as
  the empty text.
\<close>

datatype inline = Text string | Tt string | Ticket string

record row =
  rev_cell :: string
  author_cell :: string
  log_cell :: "inline list"

text \<open>
  The script puts every code segment back in backquotes: it replaces the element by the
  string made of a backquote, the text of the element and a backquote, and cheerio parses
  that string as markup again. What the parser reads from a string is the parameter
  \<open>parse\<close>, the nodes it finds; nodes that come out of it are not replaced again.
\<close>

fun replaceCode :: "(string \<Rightarrow> inline list) \<Rightarrow> inline \<Rightarrow> inline list" where
  "replaceCode parse (Tt s) = parse (''`'' @ s @ ''`'')"
| "replaceCode parse (Text s) = [Text s]"
| "replaceCode parse (Ticket s) = [Ticket s]"

definition reAddCode :: "(string \<Rightarrow> inline list) \<Rightarrow> inline list \<Rightarrow> inline list" where
  "reAddCode parse ns = concat (map (replaceCode parse) ns)"

text \<open>On a string without markup the parser finds one text node, the string itself.\<close>

definition plainText :: "string \<Rightarrow> inline list" where
  "plainText s = [Text s]"

text \<open>The text of a node, and of the description cell.\<close>

fun inlineText :: "inline \<Rightarrow> string" where
  "inlineText (Text s) = s"
| "inlineText (Tt s) = s"
| "inlineText (Ticket s) = s"

definition cellText :: "inline list \<Rightarrow> string" where
  "cellText ns = concat (map inlineText ns)"

fun tickets :: "inline list \<Rightarrow> string list" where
  "tickets [] = []"
| "tickets (Ticket s # ns) = replaceFirst (reAfter (CHR ''#'')) (\<lambda>g. g) (trim s) # tickets ns"
| "tickets (n # ns) = tickets ns"

text \<open>The steps of the loop body on the text of the description.\<close>

definition removeFixes :: "string \<Rightarrow> string" where
  "removeFixes d = replaceFirst reFixes (\<lambda>g. []) d"

definition removeSee :: "string \<Rightarrow> string" where
  "removeSee d = replaceFirst reSee (\<lambda>g. []) d"

definition extractProps :: "string \<Rightarrow> string list" where
  "extractProps d = (case matchFirst propsRegex d of None \<Rightarrow> [] | Some g \<Rightarrow> split (trim g))"

definition removeProps :: "string \<Rightarrow> string" where
  "removeProps d = replaceFirst propsRegex (\<lambda>g. []) d"

text \<open>One pass of the loop body of \<^verbatim>\<open>buildChangesets\<close>: rows \<open>i\<close> and \<open>i + 1\<close>.\<close>

definition buildChangeset :: "(string \<Rightarrow> inline list) \<Rightarrow> row \<Rightarrow> row \<Rightarrow> changeset" where
  "buildChangeset parse r1 r2 =
     (let cell = reAddCode parse (log_cell r2);
          d = removeSee (removeFixes (cellText cell))
      in \<lparr> revision = replaceFirst (reAfter (CHR ''@'')) (\<lambda>g. ''['' @ g @ '']'') (trim (rev_cell r1)),
           author = trim (author_cell r1),
           related = tickets cell,
           component = [],
           description = trim (collapseBlankLines (removeProps d)),
           props = extractProps d \<rparr>)"

text \<open>
  The loop of \<^verbatim>\<open>buildChangesets\<close> takes the rows two at a time and leaves at the
  first index whose successor is missing.
\<close>

fun buildChangesets :: "(string \<Rightarrow> inline list) \<Rightarrow> row list \<Rightarrow> changeset list" where
  "buildChangesets parse (r1 # r2 # rows) = buildChangeset parse r1 r2 # buildChangesets parse rows"
| "buildChangesets parse [r1] = []"
| "buildChangesets parse [] = []"

section \<open>Components\<close>

text \<open>
  The answer to the request for a ticket page: an error, or a status code with the text
  of the cell next to \<^verbatim>\<open>#h_component\<close> in the body. The requests of one changeset
  run together and each answer is handled when it arrives: the parameter \<open>arrival\<close>
  gives the tickets of a changeset in the order of their answers.
\<close>

datatype response = Failed | Response nat string

fun requestDone :: "response \<Rightarrow> string list \<Rightarrow> string list" where
  "requestDone (Response code cell) comps = (if code = 200 then comps @ [trim cell] else comps)"
| "requestDone Failed comps = comps"

definition gatherComponent ::
  "(string \<Rightarrow> response) \<Rightarrow> (string list \<Rightarrow> string list) \<Rightarrow> changeset \<Rightarrow> changeset" where
  "gatherComponent request arrival c =
     c\<lparr>component :=
         foldl (\<lambda>comps ticket. requestDone (request ticket) comps) (component c)
           (arrival (related c))\<rparr>"

definition gatherComponents ::
  "(string \<Rightarrow> response) \<Rightarrow> (string list \<Rightarrow> string list) \<Rightarrow> changeset list \<Rightarrow> changeset list" where
  "gatherComponents request arrival cs = map (gatherComponent request arrival) cs"

section \<open>Objects as the script uses them\<close>

text \<open>
  \<^verbatim>\<open>categories\<close> is a plain object: its own properties in the order of their
  creation, and the properties it inherits from \<^verbatim>\<open>Object.prototype\<close>, which are
  functions or objects, none of them with a method \<^verbatim>\<open>push\<close>.
\<close>

type_synonym 'v object = "(string \<times> 'v) list"

definition objectPrototype :: "string list" where
  "objectPrototype =
     [''constructor'', ''hasOwnProperty'', ''isPrototypeOf'', ''propertyIsEnumerable'',
      ''toLocaleString'', ''toString'', ''valueOf'', ''__proto__'', ''__defineGetter__'',
      ''__defineSetter__'', ''__lookupGetter__'', ''__lookupSetter__'']"

text \<open>What reading \<^verbatim>\<open>obj[key]\<close> finds.\<close>

datatype 'v property = Own 'v | Inherited | Undefined

definition getProperty :: "'v object \<Rightarrow> string \<Rightarrow> 'v property" where
  "getProperty obj k =
     (case map_of obj k of
        Some v \<Rightarrow> Own v
      | None \<Rightarrow> if k \<in> set objectPrototype then Inherited else Undefined)"

text \<open>\<^verbatim>\<open>obj[key] = v\<close>: an own property keeps its place, a new one goes last.\<close>

fun setProperty :: "'v object \<Rightarrow> string \<Rightarrow> 'v \<Rightarrow> 'v object" where
  "setProperty [] k v = [(k, v)]"
| "setProperty ((k', v') # obj) k v =
     (if k' = k then (k, v) # obj else (k', v') # setProperty obj k v)"

text \<open>
  The keys are enumerated with the array indices first, in ascending order, then the
  other names in the order of their creation. An array index is the canonical decimal
  form of an integer below \<open>2\<^sup>3\<^sup>2 - 1\<close>.
\<close>

definition isDigit :: "char \<Rightarrow> bool" where
  "isDigit c \<longleftrightarrow> c \<in> set ''0123456789''"

definition digitValue :: "char \<Rightarrow> int" where
  "digitValue c = (case map_of (zip ''0123456789'' [0, 1, 2, 3, 4, 5, 6, 7, 8, 9]) c of
                     Some d \<Rightarrow> d | None \<Rightarrow> 0)"

definition indexValue :: "string \<Rightarrow> int" where
  "indexValue s = foldl (\<lambda>n c. 10 * n + digitValue c) 0 s"

definition isArrayIndex :: "string \<Rightarrow> bool" where
  "isArrayIndex s \<longleftrightarrow>
     s \<noteq> [] \<and> list_all isDigit s \<and> (s = ''0'' \<or> hd s \<noteq> CHR ''0'') \<and>
     indexValue s < 4294967295"

definition keys :: "'v object \<Rightarrow> string list" where
  "keys obj =
     sort_key indexValue (filter isArrayIndex (map fst obj)) @
     filter (\<lambda>k. \<not> isArrayIndex k) (map fst obj)"

text \<open>
  The value \<^verbatim>\<open>item.component\<close> is an array, which \<^verbatim>\<open>'Misc'\<close> may replace. Every
  array is truthy, the empty one too; as a property key or in a concatenation an array
  of strings is its elements joined by commas.
\<close>

datatype category = Array "string list" | String string

fun truthy :: "category \<Rightarrow> bool" where
  "truthy (Array xs) = True"
| "truthy (String s) = (s \<noteq> [])"

fun toString :: "category \<Rightarrow> string" where
  "toString (Array xs) = join '','' xs"
| "toString (String s) = s"

section \<open>The report\<close>

datatype error = TypeError

text \<open>The function given to \<^verbatim>\<open>async.map\<close>, called on the changesets in order.\<close>

definition categorize :: "changeset list object \<Rightarrow> changeset \<Rightarrow> error + changeset list object" where
  "categorize categories item =
     (let category = Array (component item);
          category = (if \<not> truthy category then String ''Misc'' else category);
          categories = (if getProperty categories (toString category) = Undefined
                        then setProperty categories (toString category) []
                        else categories)
      in case getProperty categories (toString (Array (component item))) of
           Own bucket \<Rightarrow>
             Inr (setProperty categories (toString (Array (component item))) (bucket @ [item]))
         | Inherited \<Rightarrow> Inl TypeError
         | Undefined \<Rightarrow> Inl TypeError)"

fun categorizeAll :: "changeset list object \<Rightarrow> changeset list \<Rightarrow> error + changeset list object" where
  "categorizeAll categories [] = Inr categories"
| "categorizeAll categories (item # items) =
     (case categorize categories item of
        Inl e \<Rightarrow> Inl e
      | Inr categories' \<Rightarrow> categorizeAll categories' items)"

text \<open>The line of one changeset, and the credits it adds.\<close>

definition changesetLine :: "changeset \<Rightarrow> string" where
  "changesetLine c =
     ''* '' @ trim (description c) @ '' '' @ revision c @ '' '' @
     ''#'' @ join '', #'' (related c) @ [LF]"

definition credit :: "string list \<Rightarrow> changeset \<Rightarrow> string list" where
  "credit ps c = (let ps = ps @ [author c] in if length (props c) \<noteq> 0 then ps @ props c else ps)"

text \<open>
  The state of the two nested loops: the text \<^verbatim>\<open>changesetOutput\<close> and the list
  \<^verbatim>\<open>props\<close>.
\<close>

fun eachChangeset :: "changeset list \<Rightarrow> string \<times> string list \<Rightarrow> string \<times> string list" where
  "eachChangeset [] st = st"
| "eachChangeset (c # cs) (out, ps) = eachChangeset cs (out @ changesetLine c, credit ps c)"

fun eachCategory :: "changeset list list \<Rightarrow> string \<times> string list \<Rightarrow> error + string \<times> string list" where
  "eachCategory [] st = Inr st"
| "eachCategory ([] # cats) st = Inl TypeError"
| "eachCategory ((c # cs) # cats) (out, ps) =
     eachCategory cats
       (eachChangeset (c # cs) (out @ ''### '' @ toString (Array (component c)) @ [LF], ps))"

text \<open>The values of the properties, in the order \<^verbatim>\<open>_.each\<close> visits them.\<close>

definition values_of :: "'v object \<Rightarrow> 'v list" where
  "values_of obj = List.map_filter (map_of obj) (keys obj)"

text \<open>
  \<^verbatim>\<open>String.prototype.toLowerCase\<close> on the characters of the model: the capital
  letters of ASCII and of Latin-1.
\<close>

definition toLower :: "char \<Rightarrow> char" where
  "toLower c =
     (let n = of_char c :: nat
      in if (65 \<le> n \<and> n \<le> 90) \<or> (192 \<le> n \<and> n \<le> 222 \<and> n \<noteq> 215) then char_of (n + 32) else c)"

definition toLowerCase :: "string \<Rightarrow> string" where
  "toLowerCase s = map toLower s"

text \<open>
  The comparison function given to \<^verbatim>\<open>Array.prototype.sort\<close>. The collation of
  \<^verbatim>\<open>String.prototype.localeCompare\<close> belongs to the host, so it is the parameter
  \<open>localeCompare\<close>: negative, zero or positive.
\<close>

definition compareFunction :: "(string \<Rightarrow> string \<Rightarrow> int) \<Rightarrow> string \<Rightarrow> string \<Rightarrow> int" where
  "compareFunction localeCompare a b = localeCompare (toLowerCase a) (toLowerCase b)"

text \<open>
  The sort is stable: elements that compare as equal keep their order. For a consistent
  comparison function that fixes the result, computed here by insertion.
\<close>

fun insertSorted :: "(string \<Rightarrow> string \<Rightarrow> int) \<Rightarrow> string \<Rightarrow> string list \<Rightarrow> string list" where
  "insertSorted cmp x [] = [x]"
| "insertSorted cmp x (y # ys) = (if cmp x y \<le> 0 then x # y # ys else y # insertSorted cmp x ys)"

definition sortWith :: "(string \<Rightarrow> string \<Rightarrow> int) \<Rightarrow> string list \<Rightarrow> string list" where
  "sortWith cmp xs = foldr (insertSorted cmp) xs []"

text \<open>
  \<^verbatim>\<open>_.uniq(array, true)\<close>: the loop of underscore for a sorted array keeps a value
  when it is the first or differs (\<^verbatim>\<open>!==\<close>) from the value before it.
\<close>

fun uniqLoop :: "string option \<Rightarrow> string list \<Rightarrow> string list" where
  "uniqLoop seen [] = []"
| "uniqLoop seen (v # vs) =
     (if seen \<noteq> Some v then v # uniqLoop (Some v) vs else uniqLoop (Some v) vs)"

definition uniq :: "string list \<Rightarrow> string list" where
  "uniq xs = uniqLoop None xs"

text \<open>\<^verbatim>\<open>_.last\<close> (\<^verbatim>\<open>undefined\<close> on the empty array) and \<^verbatim>\<open>_.without\<close>.\<close>

fun last_of :: "string list \<Rightarrow> string option" where
  "last_of [] = None"
| "last_of [x] = Some x"
| "last_of (x # y # ys) = last_of (y # ys)"

fun without :: "string list \<Rightarrow> string option \<Rightarrow> string list" where
  "without xs None = xs"
| "without xs (Some v) = filter (\<lambda>x. x \<noteq> v) xs"

text \<open>\<^verbatim>\<open>%s\<close> of \<^verbatim>\<open>util.format\<close>.\<close>

fun formatString :: "string option \<Rightarrow> string" where
  "formatString None = ''undefined''"
| "formatString (Some s) = s"

definition propsLine :: "string list \<Rightarrow> string" where
  "propsLine ps =
     ''Thanks to @'' @ join '', @'' (without ps (last_of ps)) @ '', and @'' @
     formatString (last_of ps) @ '' for their contributions!''"

record report =
  changesetOutput :: string
  propsOutput :: string

text \<open>The two phases of \<^verbatim>\<open>buildOutput\<close> that fill \<^verbatim>\<open>changesetOutput\<close> and \<^verbatim>\<open>props\<close>.\<close>

definition renderCategories :: "changeset list \<Rightarrow> error + string \<times> string list" where
  "renderCategories changesets =
     (case categorizeAll [] changesets of
        Inl e \<Rightarrow> Inl e
      | Inr categories \<Rightarrow> eachCategory (values_of categories) ([], []))"

definition buildOutput :: "(string \<Rightarrow> string \<Rightarrow> int) \<Rightarrow> changeset list \<Rightarrow> error + report" where
  "buildOutput localeCompare changesets =
     (case renderCategories changesets of
        Inl e \<Rightarrow> Inl e
      | Inr (out, ps) \<Rightarrow>
          Inr \<lparr> changesetOutput = out,
                propsOutput = propsLine (uniq (sortWith (compareFunction localeCompare) ps)) \<rparr>)"

text \<open>What the two calls of \<^verbatim>\<open>console.log\<close> print.\<close>

definition printed :: "report \<Rightarrow> string" where
  "printed r =
     ''## Code Changes'' @ [LF, LF] @ changesetOutput r @ [LF] @
     ''## Props'' @ [LF, LF] @ propsOutput r @ [LF]"

text \<open>
  A collation for the examples: the order of the character codes, with which
  \<^verbatim>\<open>localeCompare\<close> agrees on words of small ASCII letters.
\<close>

fun codeCompare :: "string \<Rightarrow> string \<Rightarrow> int" where
  "codeCompare [] [] = 0"
| "codeCompare [] (b # bs) = - 1"
| "codeCompare (a # as) [] = 1"
| "codeCompare (a # as) (b # bs) =
     (if (of_char a :: nat) < of_char b then - 1
      else if (of_char b :: nat) < of_char a then 1
      else codeCompare as bs)"

section \<open>The revision with \<^verbatim>\<open>cleanProps\<close>\<close>

text \<open>
  One revision of the script cleans the list of names with \<^verbatim>\<open>cleanProps\<close> and
  finds the clause with \<^verbatim>\<open>/(?:Props:?\s+)(.*)\.?/mi\<close>: the word, a colon or none,
  white space (line ends too), then the rest of the line as the group; the optional
  period after the group never has a period left to take. The names of this revision
  carry the suffix \<open>_v2\<close>.
\<close>

definition propsRegex_v2 :: matcher where
  "propsRegex_v2 s =
     (if startsWithI ''Props'' s
      then let t = drop 5 s;
               t = (if startsWith '':'' t then drop 1 t else t);
               r = dropWhile isWhiteSpace t
           in if takeWhile isWhiteSpace t \<noteq> []
              then Some (length s - length r + length (dotStar r), dotStar r)
              else None
      else None)"

text \<open>
  \<^verbatim>\<open>/(for.*(,))/ig\<close> and \<^verbatim>\<open>/(for.*(\.))/\<close>: the word, then the line up to its
  last comma (its last period); the second expression minds the case.
\<close>

definition reForUntil :: "bool \<Rightarrow> char \<Rightarrow> matcher" where
  "reForUntil ignoreCase k s =
     (if (if ignoreCase then startsWithI ''for'' s else startsWith ''for'' s)
      then let line = dotStar (drop 3 s);
               n = 3 + (length line - length (takeWhile (\<lambda>c. c \<noteq> k) (rev line)))
           in if k \<in> set line then Some (n, take n s) else None
      else None)"

text \<open>\<^verbatim>\<open>/\./gmi\<close> and \<^verbatim>\<open>/\s/g\<close>: one character.\<close>

definition reChar :: "(char \<Rightarrow> bool) \<Rightarrow> matcher" where
  "reChar p s = (case s of [] \<Rightarrow> None | c # t \<Rightarrow> if p c then Some (1, [c]) else None)"

definition cleanProps :: "string \<Rightarrow> string list" where
  "cleanProps ps =
     (let s = replaceAll (reForUntil True (CHR '','')) (\<lambda>g. []) ps;
          s = replaceFirst (reForUntil False (CHR ''.'')) (\<lambda>g. []) s;
          s = replaceAll (reChar (\<lambda>c. c = CHR ''.'')) (\<lambda>g. []) s;
          s = trim s;
          s = replaceAll (reChar isWhiteSpace) (\<lambda>g. '','') s
      in filter (\<lambda>x. x \<noteq> []) (split s))"

definition extractProps_v2 :: "string \<Rightarrow> string list" where
  "extractProps_v2 d = (case matchFirst propsRegex_v2 d of None \<Rightarrow> [] | Some g \<Rightarrow> cleanProps g)"

definition removeProps_v2 :: "string \<Rightarrow> string" where
  "removeProps_v2 d = replaceFirst propsRegex_v2 (\<lambda>g. []) d"

definition buildChangeset_v2 :: "(string \<Rightarrow> inline list) \<Rightarrow> row \<Rightarrow> row \<Rightarrow> changeset" where
  "buildChangeset_v2 parse r1 r2 =
     (let cell = reAddCode parse (log_cell r2);
          d = removeSee (removeFixes (cellText cell))
      in \<lparr> revision = replaceFirst (reAfter (CHR ''@'')) (\<lambda>g. ''['' @ g @ '']'') (trim (rev_cell r1)),
           author = trim (author_cell r1),
           related = tickets cell,
           component = [],
           description = trim (collapseBlankLines (removeProps_v2 d)),
           props = extractProps_v2 d \<rparr>)"

section \<open>Vocabulary of the properties\<close>

text \<open>\<open>containsI s needle\<close>: \<open>needle\<close> occurs in \<open>s\<close>, the case of letters ignored.\<close>

fun containsI :: "string \<Rightarrow> string \<Rightarrow> bool" where
  "containsI [] needle = (needle = [])"
| "containsI (c # cs) needle = (startsWithI needle (c # cs) \<or> containsI cs needle)"

text \<open>\<open>wordI w lit\<close>: \<open>w\<close> is the word \<open>lit\<close> in some case of its letters.\<close>

definition wordI :: "string \<Rightarrow> string \<Rightarrow> bool" where
  "wordI w lit \<longleftrightarrow> map canonicalize w = map canonicalize lit"

text \<open>A word none of whose letters is a line terminator.\<close>

definition plainWord :: "string \<Rightarrow> bool" where
  "plainWord w \<longleftrightarrow> (\<forall>x \<in> set w. \<not> isLineTerminator (canonicalize x))"

text \<open>A character that is no letter of the word.\<close>

definition outside :: "char \<Rightarrow> string \<Rightarrow> bool" where
  "outside j w \<longleftrightarrow> (\<forall>x \<in> set w. canonicalize j \<noteq> canonicalize x)"

text \<open>\<open>lineRest rest post\<close>: \<open>rest\<close> runs to the end of a line, \<open>post\<close> is what follows the line.\<close>

definition lineRest :: "string \<Rightarrow> string \<Rightarrow> bool" where
  "lineRest rest post \<longleftrightarrow>
     (\<forall>c \<in> set rest. \<not> isLineTerminator c) \<and> (post = [] \<or> isLineTerminator (hd post))"

text \<open>A matcher whose match runs to the end of a line.\<close>

definition lineTail :: "matcher \<Rightarrow> bool" where
  "lineTail m \<longleftrightarrow>
     (\<forall>s n g. m s = Some (n, g) \<longrightarrow>
        n \<le> length s \<and> (drop n s = [] \<or> isLineTerminator (hd (drop n s))))"

text \<open>The elements of a list in the order of their first occurrence.\<close>

fun firstOccurrences :: "'a list \<Rightarrow> 'a list" where
  "firstOccurrences [] = []"
| "firstOccurrences (x # xs) = x # filter (\<lambda>y. y \<noteq> x) (firstOccurrences xs)"

text \<open>The property name under which a changeset is filed: its components, joined.\<close>

definition key :: "changeset \<Rightarrow> string" where
  "key c = toString (Array (component c))"

text \<open>
  What the report is compared with: the buckets, one per property name in the order of
  first occurrence, each holding the changesets of that name in their order; the order
  in which the names are visited; and the text of one section.
\<close>

definition bucketsOf :: "changeset list \<Rightarrow> changeset list object" where
  "bucketsOf cs = map (\<lambda>k. (k, filter (\<lambda>c. key c = k) cs)) (firstOccurrences (map key cs))"

definition sectionOrder :: "string list \<Rightarrow> string list" where
  "sectionOrder ks =
     sort_key indexValue (filter isArrayIndex (firstOccurrences ks)) @
     filter (\<lambda>k. \<not> isArrayIndex k) (firstOccurrences ks)"

fun sectionOf :: "changeset list \<Rightarrow> string" where
  "sectionOf [] = []"
| "sectionOf (c # cs) = ''### '' @ key c @ [LF] @ concat (map changesetLine (c # cs))"

section \<open>Examples\<close>

text \<open>A row with a revision and an author, and description rows.\<close>

definition exampleRevRow :: row where
  "exampleRevRow = \<lparr> rev_cell = '' @4321 '', author_cell = ''alice'', log_cell = [] \<rparr>"

definition exampleLogRow :: row where
  "exampleLogRow =
     \<lparr> rev_cell = [], author_cell = [],
       log_cell = [Text ''Fix the '', Tt ''foo'', Text '' bug.\<newline>\<newline>Props bob.\<newline>Fixes '',
                   Ticket ''#12'', Text ''.''] \<rparr>"

definition examplePropsRow :: row where
  "examplePropsRow = \<lparr> rev_cell = [], author_cell = [], log_cell = [Text ''Props jane.''] \<rparr>"

definition exampleTwoSee :: row where
  "exampleTwoSee =
     \<lparr> rev_cell = [], author_cell = [],
       log_cell = [Text ''Fix.\<newline>See '', Ticket ''#1'', Text ''\<newline>See '', Ticket ''#2''] \<rparr>"

definition exampleTwoProps :: row where
  "exampleTwoProps =
     \<lparr> rev_cell = [], author_cell = [], log_cell = [Text ''Fix.\<newline>Props a.\<newline>Props b.''] \<rparr>"

definition exampleSeeFixes :: row where
  "exampleSeeFixes =
     \<lparr> rev_cell = [], author_cell = [],
       log_cell = [Text ''x Fixes '', Ticket ''#1'', Text ''\<newline>See '', Ticket ''#2'',
                   Text '', Fixes '', Ticket ''#3''] \<rparr>"

text \<open>Changesets as the rendering receives them.\<close>

definition exampleChangeset :: "string list \<Rightarrow> string \<Rightarrow> string list \<Rightarrow> changeset" where
  "exampleChangeset components a ps =
     \<lparr> revision = ''[1]'', author = a, related = [], component = components,
       description = ''Fix.'', props = ps \<rparr>"

text \<open>
  A description with two tickets, and requests of which the one for ticket 12 is
  answered; the answers arrive in the order of the requests.
\<close>

definition exampleTwoTickets :: row where
  "exampleTwoTickets =
     \<lparr> rev_cell = [], author_cell = [],
       log_cell = [Text ''Fix.\<newline>Fixes '', Ticket ''#12'', Text '', '', Ticket '' #13 '', Text ''.''] \<rparr>"

definition exampleRequest :: "string \<Rightarrow> response" where
  "exampleRequest ticket = (if ticket = ''12'' then Response 200 '' Editor '' else Failed)"

definition exampleReport :: "changeset list" where
  "exampleReport =
     gatherComponents exampleRequest (\<lambda>ts. ts)
       (buildChangesets plainText [exampleRevRow, exampleTwoTickets, exampleRevRow, examplePropsRow])"

definition exampleThree :: "changeset list" where
  "exampleThree =
     [exampleChangeset [''Editor''] ''bob'' [''alice''],
      exampleChangeset [''Media''] ''carol'' [],
      exampleChangeset [''Editor''] ''alice'' [''Bob'']]"

definition exampleCredits :: "changeset list" where
  "exampleCredits = [exampleChangeset [''Editor''] ''bob'' [''alice'', ''Bob'']]"

text \<open>
  Three changesets by \<open>bob\<close>, \<open>Bob\<close> and \<open>bob\<close> with one ticket each; the tickets
  of the first and the third have the component A, the ticket of the second has B.
\<close>

definition exampleAuthorRow :: "string \<Rightarrow> string \<Rightarrow> row" where
  "exampleAuthorRow r a = \<lparr> rev_cell = r, author_cell = a, log_cell = [] \<rparr>"

definition exampleTicketRow :: "string \<Rightarrow> row" where
  "exampleTicketRow t =
     \<lparr> rev_cell = [], author_cell = [], log_cell = [Text ''Fix.\<newline>Fixes '', Ticket t, Text ''.''] \<rparr>"

definition exampleBuckets :: "changeset list" where
  "exampleBuckets =
     gatherComponents (\<lambda>ticket. Response 200 (if ticket = ''2'' then ''B'' else ''A'')) (\<lambda>ts. ts)
       (buildChangesets plainText
          [exampleAuthorRow ''@1'' ''bob'', exampleTicketRow ''#1'',
           exampleAuthorRow ''@2'' ''Bob'', exampleTicketRow ''#2'',
           exampleAuthorRow ''@3'' ''bob'', exampleTicketRow ''#3''])"

section \<open>Pairs of rows\<close>

lemma buildChangesets_length: "length (buildChangesets parse rows) = length rows div 2"
  by (induction parse rows rule: buildChangesets.induct) simp_all

lemma buildChangesets_nth:
  "k < length rows div 2 \<Longrightarrow>
   buildChangesets parse rows ! k = buildChangeset parse (rows ! (2 * k)) (rows ! (2 * k + 1))"
proof (induction parse rows arbitrary: k rule: buildChangesets.induct)
  case (1 r1 r2 rows)
  then show ?case by (cases k) simp_all
qed simp_all

lemma buildChangesets_trailing:
  "even (length rows) \<Longrightarrow> buildChangesets parse (rows @ [r]) = buildChangesets parse rows"
  by (induction parse rows rule: buildChangesets.induct) simp_all

text \<open>
  C1. Extraction gives one changeset per complete pair of rows, in the order of the
  rows: the result has \<open>length rows div 2\<close> entries, entry \<open>k\<close> is built from rows
  \<open>2 * k\<close> and \<open>2 * k + 1\<close>, and a last row without a description row after it is
  dropped, the changesets before it staying as they are. The function is total: no
  list of rows makes it fail.
\<close>

theorem buildChangesets_pairs:
  "length (buildChangesets parse rows) = length rows div 2 \<and>
   (\<forall>k < length rows div 2.
      buildChangesets parse rows ! k = buildChangeset parse (rows ! (2 * k)) (rows ! (2 * k + 1))) \<and>
   (even (length rows) \<longrightarrow> buildChangesets parse (rows @ [r]) = buildChangesets parse rows)"
  by (simp add: buildChangesets_length buildChangesets_nth buildChangesets_trailing)

theorem buildChangesets_pairs_witness:
  "length (buildChangesets plainText [exampleRevRow, exampleLogRow]) = 1 \<and>
   buildChangesets plainText [exampleRevRow, exampleLogRow] ! 0 = buildChangeset plainText exampleRevRow exampleLogRow \<and>
   buildChangesets plainText ([exampleRevRow, exampleLogRow] @ [exampleRevRow]) =
     buildChangesets plainText [exampleRevRow, exampleLogRow]"
  using buildChangesets_pairs [of plainText "[exampleRevRow, exampleLogRow]" exampleRevRow]
  by simp

section \<open>Blank lines\<close>

lemma collapse_Nil: "collapseBlankLines [] = []"
  by (simp add: collapseBlankLines_def reBlankLines_def startsWith_def)

lemma collapse_Cons:
  "collapseBlankLines (c # cs) =
     (if startsWith [LF, LF, LF] (c # cs)
      then LF # LF # collapseBlankLines (dropWhile (\<lambda>c. c = LF) (c # cs))
      else c # collapseBlankLines cs)"
  by (auto simp: collapseBlankLines_def reBlankLines_def startsWith_def dropWhile_eq_drop[symmetric])

lemma startsWith3:
  "startsWith [LF, LF, LF] s \<longleftrightarrow> (\<exists>t. s = LF # LF # LF # t)"
  by (cases s; cases "tl s"; cases "tl (tl s)") (auto simp: startsWith_def)

lemma collapse_hd: "s \<noteq> [] \<Longrightarrow> collapseBlankLines s \<noteq> [] \<and> hd (collapseBlankLines s) = hd s"
  by (cases s) (auto simp: collapse_Cons startsWith3)

lemma collapse_fixed: "\<not> contains s [LF, LF, LF] \<Longrightarrow> collapseBlankLines s = s"
  by (induction s) (auto simp: collapse_Nil collapse_Cons)

lemma collapse_no_triple: "\<not> contains (collapseBlankLines s) [LF, LF, LF]"
proof (induction s rule: length_induct)
  case (1 s)
  show ?case
  proof (cases s)
    case Nil
    then show ?thesis by (simp add: collapse_Nil)
  next
    case (Cons c cs)
    show ?thesis
    proof (cases "startsWith [LF, LF, LF] s")
      case True
      define r where "r = dropWhile (\<lambda>c. c = LF) s"
      have len: "length r < length s"
        using True Cons by (auto simp: r_def startsWith3 intro: le_imp_less_Suc length_dropWhile_le)
      have r_hd: "r \<noteq> [] \<Longrightarrow> hd r \<noteq> LF"
        unfolding r_def using hd_dropWhile[of "\<lambda>c. c = LF" s] by simp
      have ih: "\<not> contains (collapseBlankLines r) [LF, LF, LF]"
        using 1 len by blast
      have c_hd: "collapseBlankLines r \<noteq> [] \<Longrightarrow> hd (collapseBlankLines r) \<noteq> LF"
        using r_hd collapse_hd[of r] by (cases r) (auto simp: collapse_Nil)
      have eq: "collapseBlankLines s = LF # LF # collapseBlankLines r"
        using True Cons by (simp add: collapse_Cons r_def)
      show ?thesis
        using ih c_hd unfolding eq
        by (cases "collapseBlankLines r") (auto simp: startsWith3)
    next
      case False
      have ih: "\<not> contains (collapseBlankLines cs) [LF, LF, LF]"
        using 1 Cons by simp
      have eq: "collapseBlankLines s = c # collapseBlankLines cs"
        using False Cons by (simp add: collapse_Cons)
      have "\<not> startsWith [LF, LF, LF] (c # collapseBlankLines cs)"
      proof
        assume a: "startsWith [LF, LF, LF] (c # collapseBlankLines cs)"
        then obtain t where t: "c = LF" "collapseBlankLines cs = LF # LF # t"
          by (auto simp: startsWith3)
        then obtain cs' where cs': "cs = LF # cs'"
          using collapse_hd[of cs] by (cases cs) (auto simp: collapse_Nil)
        have "\<not> startsWith [LF, LF, LF] cs"
          using False Cons t cs' by (auto simp: startsWith3)
        then have "collapseBlankLines cs = LF # collapseBlankLines cs'"
          using cs' by (simp add: collapse_Cons)
        then have "collapseBlankLines cs' = LF # t" using t by simp
        then have "cs' \<noteq> [] \<and> hd cs' = LF"
          using collapse_hd[of cs'] by (cases cs') (auto simp: collapse_Nil)
        then show False using False Cons t cs' by (cases cs') (auto simp: startsWith3)
      qed
      then show ?thesis using ih unfolding eq by simp
    qed
  qed
qed

text \<open>
  C9. Replacing every run of three or more newlines by two is idempotent: a second
  application changes nothing.
\<close>

theorem collapseBlankLines_idempotent:
  "collapseBlankLines (collapseBlankLines s) = collapseBlankLines s"
  by (rule collapse_fixed [OF collapse_no_triple])

theorem collapseBlankLines_idempotent_witness:
  "collapseBlankLines (collapseBlankLines ''a\<newline>\<newline>\<newline>\<newline>\<newline>b\<newline>\<newline>c'') =
   collapseBlankLines ''a\<newline>\<newline>\<newline>\<newline>\<newline>b\<newline>\<newline>c''"
  by (rule collapseBlankLines_idempotent)

section \<open>Clauses and lines\<close>

lemma canonicalize_LT: "isLineTerminator c \<Longrightarrow> canonicalize c = c"
  unfolding isLineTerminator_def by (erule disjE) (simp_all add: canonicalize_def)

lemma startsWithI_Nil: "startsWithI [] s"
  by (simp add: startsWithI_def)

lemma startsWithI_Cons:
  "startsWithI (x # w) s \<longleftrightarrow>
     (\<exists>a t. s = a # t \<and> canonicalize a = canonicalize x \<and> startsWithI w t)"
  by (cases s) (auto simp: startsWithI_def)

lemma startsWithI_cut:
  "startsWithI w (p @ post) \<Longrightarrow> plainWord w \<Longrightarrow> post = [] \<or> isLineTerminator (hd post) \<Longrightarrow>
   startsWithI w (p @ mid @ post)"
proof (induction w arbitrary: p)
  case Nil
  then show ?case by (simp add: startsWithI_Nil)
next
  case (Cons x w)
  show ?case
  proof (cases p)
    case Nil
    with Cons.prems obtain a t where "post = a # t" "canonicalize a = canonicalize x"
      by (auto simp: startsWithI_Cons)
    with Cons.prems show ?thesis
      by (auto simp: plainWord_def canonicalize_LT)
  next
    case (Cons a p')
    with Cons.prems Cons.IH[of p'] show ?thesis
      by (auto simp: startsWithI_Cons plainWord_def)
  qed
qed

lemma containsI_append: "containsI post n \<Longrightarrow> containsI (mid @ post) n"
  by (induction mid) auto

lemma containsI_cut:
  assumes "\<not> containsI (pre @ mid @ post) (LF # w)" "plainWord w"
    "post = [] \<or> isLineTerminator (hd post)"
  shows "\<not> containsI (pre @ post) (LF # w)"
  using assms
proof (induction pre)
  case Nil
  then show ?case using containsI_append[of post "LF # w" mid] by auto
next
  case (Cons c pre)
  have "\<not> startsWithI (LF # w) (c # pre @ post)"
  proof
    assume "startsWithI (LF # w) (c # pre @ post)"
    then have "canonicalize c = canonicalize LF" "startsWithI w (pre @ post)"
      by (auto simp: startsWithI_Cons)
    then have "startsWithI (LF # w) (c # pre @ mid @ post)"
      using startsWithI_cut[of w pre post mid] Cons.prems by (auto simp: startsWithI_Cons)
    then show False using Cons.prems by simp
  qed
  moreover have "\<not> containsI (pre @ post) (LF # w)"
    using Cons by simp
  ultimately show ?case by simp
qed

lemma replaceFirst_cut:
  assumes "lineTail m"
  shows "\<exists>pre mid post. d = pre @ mid @ post \<and> (post = [] \<or> isLineTerminator (hd post)) \<and>
           replaceFirst m (\<lambda>g. []) d = pre @ post"
proof (induction d)
  case Nil
  show ?case by (rule exI[of _ "[]"], rule exI[of _ "[]"], rule exI[of _ "[]"]) (auto split: option.splits)
next
  case (Cons c d)
  show ?case
  proof (cases "m (c # d)")
    case None
    from Cons obtain pre mid post where
      "d = pre @ mid @ post" "post = [] \<or> isLineTerminator (hd post)"
      "replaceFirst m (\<lambda>g. []) d = pre @ post" by blast
    with None show ?thesis
      by (intro exI[of _ "c # pre"] exI[of _ mid] exI[of _ post]) simp
  next
    case (Some a)
    obtain n g where a: "a = (n, g)" by (cases a)
    have "n \<le> length (c # d)" "drop n (c # d) = [] \<or> isLineTerminator (hd (drop n (c # d)))"
      using assms Some a unfolding lineTail_def by blast+
    then show ?thesis using Some a
      by (intro exI[of _ "[]"] exI[of _ "take n (c # d)"] exI[of _ "drop n (c # d)"]) simp
  qed
qed

lemma dotStar_rest: "drop (length (dotStar s)) s = [] \<or> isLineTerminator (hd (drop (length (dotStar s)) s))"
  unfolding dotStar_def dropWhile_eq_drop[symmetric]
  using hd_dropWhile[of "\<lambda>c. \<not> isLineTerminator c" s] by auto

lemma dotStar_length: "length (dotStar s) \<le> length s"
  by (simp add: dotStar_def length_takeWhile_le)

lemma startsWithI_length: "startsWithI w t \<Longrightarrow> length w \<le> length t"
  by (simp add: startsWithI_def)

lemma line_match:
  assumes "k \<le> length t" "n = Suc k + length (dotStar (drop k t))"
  shows "n \<le> length (c # t) \<and> (drop n (c # t) = [] \<or> isLineTerminator (hd (drop n (c # t))))"
proof -
  have "drop n (c # t) = drop (length (dotStar (drop k t))) (drop k t)"
    using assms by (simp add: add.commute)
  moreover have "n \<le> length (c # t)"
    using assms dotStar_length[of "drop k t"] by simp
  ultimately show ?thesis using dotStar_rest[of "drop k t"] by simp
qed

lemma lineTail_reFixes: "lineTail reFixes"
  unfolding lineTail_def
proof (intro allI impI)
  fix s n g assume m: "reFixes s = Some (n, g)"
  then obtain c t where s: "s = c # t" "startsWithI ''Fixes'' t" "n = 6 + length (dotStar (drop 5 t))"
    by (auto simp: reFixes_def split: list.splits if_splits)
  show "n \<le> length s \<and> (drop n s = [] \<or> isLineTerminator (hd (drop n s)))"
    unfolding s(1) using s(2,3) startsWithI_length[of "''Fixes''" t]
    by (intro line_match[of 5]) simp_all
qed

lemma lineTail_reSee: "lineTail reSee"
  unfolding lineTail_def
proof (intro allI impI)
  fix s n g assume m: "reSee s = Some (n, g)"
  then obtain c t where s: "s = c # t" "startsWithI ''See'' t" "n = 4 + length (dotStar (drop 3 t))"
    by (auto simp: reSee_def split: list.splits if_splits)
  show "n \<le> length s \<and> (drop n s = [] \<or> isLineTerminator (hd (drop n s)))"
    unfolding s(1) using s(2,3) startsWithI_length[of "''See''" t]
    by (intro line_match[of 3]) simp_all
qed

lemma lineTail_propsRegex: "lineTail propsRegex"
  unfolding lineTail_def
proof (intro allI impI)
  fix s n g assume m: "propsRegex s = Some (n, g)"
  then obtain c t where s: "s = c # t" "startsWithI ''Props'' t" "n = 6 + length (dotStar (drop 5 t))"
    by (auto simp: propsRegex_def split: list.splits if_splits)
  show "n \<le> length s \<and> (drop n s = [] \<or> isLineTerminator (hd (drop n s)))"
    unfolding s(1) using s(2,3) startsWithI_length[of "''Props''" t]
    by (intro line_match[of 5]) simp_all
qed

lemma plainWord_Props: "plainWord ''Props''"
  by (simp add: plainWord_def canonicalize_def isLineTerminator_def)

lemma removeFixes_keeps:
  "\<not> containsI d (LF # ''Props'') \<Longrightarrow> \<not> containsI (removeFixes d) (LF # ''Props'')"
proof -
  assume a: "\<not> containsI d (LF # ''Props'')"
  obtain pre mid post where c: "d = pre @ mid @ post" "post = [] \<or> isLineTerminator (hd post)"
    "replaceFirst reFixes (\<lambda>g. []) d = pre @ post"
    using replaceFirst_cut[OF lineTail_reFixes, of d] by blast
  show ?thesis
    using containsI_cut[of pre mid post "''Props''"] a c plainWord_Props
    by (simp add: removeFixes_def)
qed

lemma removeSee_keeps:
  "\<not> containsI d (LF # ''Props'') \<Longrightarrow> \<not> containsI (removeSee d) (LF # ''Props'')"
proof -
  assume a: "\<not> containsI d (LF # ''Props'')"
  obtain pre mid post where c: "d = pre @ mid @ post" "post = [] \<or> isLineTerminator (hd post)"
    "replaceFirst reSee (\<lambda>g. []) d = pre @ post"
    using replaceFirst_cut[OF lineTail_reSee, of d] by blast
  show ?thesis
    using containsI_cut[of pre mid post "''Props''"] a c plainWord_Props
    by (simp add: removeSee_def)
qed

lemma propsRegex_start: "propsRegex s = Some x \<Longrightarrow> startsWithI (LF # ''Props'') s"
  by (auto simp: propsRegex_def startsWithI_Cons[of LF] split: list.splits if_splits)

lemma no_props_match:
  "\<not> containsI d (LF # ''Props'') \<Longrightarrow> matchFirst propsRegex d = None \<and> replaceFirst propsRegex f d = d"
proof (induction d)
  case Nil
  then show ?case by (simp add: propsRegex_def)
next
  case (Cons c d)
  then have "propsRegex (c # d) = None"
    using propsRegex_start[of "c # d"] by (cases "propsRegex (c # d)") auto
  with Cons show ?case by simp
qed

text \<open>
  C10. The Props clause is found only after a newline. When the word, in any case of
  its letters, never comes right after a newline in the text, the list of props is
  empty and the removal step returns the text as it is; this holds for the step on any
  text and for the changeset built from a description cell with such a text.
\<close>

theorem props_need_newline:
  "(\<not> containsI d (LF # ''Props'') \<longrightarrow> extractProps d = [] \<and> removeProps d = d) \<and>
   (\<not> containsI (cellText (reAddCode parse (log_cell r2))) (LF # ''Props'') \<longrightarrow>
      props (buildChangeset parse r1 r2) = [] \<and>
      removeProps (removeSee (removeFixes (cellText (reAddCode parse (log_cell r2))))) =
        removeSee (removeFixes (cellText (reAddCode parse (log_cell r2)))) \<and>
      description (buildChangeset parse r1 r2) =
        trim (collapseBlankLines (removeSee (removeFixes (cellText (reAddCode parse (log_cell r2)))))))"
proof (intro conjI impI)
  assume "\<not> containsI d (LF # ''Props'')"
  from no_props_match[OF this]
  show "extractProps d = []" "removeProps d = d"
    by (simp_all add: extractProps_def removeProps_def)
next
  assume "\<not> containsI (cellText (reAddCode parse (log_cell r2))) (LF # ''Props'')"
  then have "\<not> containsI (removeSee (removeFixes (cellText (reAddCode parse (log_cell r2))))) (LF # ''Props'')"
    by (intro removeSee_keeps removeFixes_keeps)
  from no_props_match[OF this]
  show "props (buildChangeset parse r1 r2) = []"
    "removeProps (removeSee (removeFixes (cellText (reAddCode parse (log_cell r2))))) =
       removeSee (removeFixes (cellText (reAddCode parse (log_cell r2))))"
    "description (buildChangeset parse r1 r2) =
       trim (collapseBlankLines (removeSee (removeFixes (cellText (reAddCode parse (log_cell r2))))))"
    by (simp_all add: buildChangeset_def Let_def extractProps_def removeProps_def)
qed

lemma example_no_newline_props:
  "\<not> containsI ''Props jane.'' (LF # ''Props'')"
  "\<not> containsI (cellText (reAddCode plainText (log_cell examplePropsRow))) (LF # ''Props'')"
  by code_simp+

theorem props_need_newline_witness:
  "extractProps ''Props jane.'' = [] \<and> removeProps ''Props jane.'' = ''Props jane.'' \<and>
   props (buildChangeset plainText exampleRevRow examplePropsRow) = [] \<and>
   description (buildChangeset plainText exampleRevRow examplePropsRow) = ''Props jane.''"
proof -
  have "description (buildChangeset plainText exampleRevRow examplePropsRow) = ''Props jane.''"
    by code_simp
  then show ?thesis
    using props_need_newline [of "''Props jane.''" plainText examplePropsRow exampleRevRow]
      example_no_newline_props
    by simp
qed

section \<open>The list of names\<close>

text \<open>
  C6. On the text \<open>Fixed the thing.\<close>, newline, \<open>Props jane, john for testing, bob.\<close>
  the revision with \<^verbatim>\<open>cleanProps\<close> gives the props \<open>jane\<close>, \<open>john\<close>, \<open>bob\<close>:
  the qualifier \<open>for testing\<close> and the period are gone and no name is empty. The
  description left is \<open>Fixed the thing.\<close>, which holds no \<open>Props\<close>. The same
  names come out when \<^verbatim>\<open>cleanProps\<close> is given the group that \<^verbatim>\<open>/\nProps(.*)./i\<close>
  finds.
\<close>

theorem cleanProps_example:
  "extractProps_v2 ''Fixed the thing.\<newline>Props jane, john for testing, bob.'' =
     [''jane'', ''john'', ''bob''] \<and>
   \<not> containsI (removeProps_v2 ''Fixed the thing.\<newline>Props jane, john for testing, bob.'') ''Props'' \<and>
   props (buildChangeset_v2 plainText exampleRevRow
       \<lparr> rev_cell = [], author_cell = [],
         log_cell = [Text ''Fixed the thing.\<newline>Props jane, john for testing, bob.''] \<rparr>) =
     [''jane'', ''john'', ''bob''] \<and>
   description (buildChangeset_v2 plainText exampleRevRow
       \<lparr> rev_cell = [], author_cell = [],
         log_cell = [Text ''Fixed the thing.\<newline>Props jane, john for testing, bob.''] \<rparr>) =
     ''Fixed the thing.'' \<and>
   \<not> contains ''Fixed the thing.'' ''Props'' \<and>
   map_option cleanProps
     (matchFirst propsRegex ''Fixed the thing.\<newline>Props jane, john for testing, bob.'') =
     Some [''jane'', ''john'', ''bob''] \<and>
   \<not> containsI (removeProps ''Fixed the thing.\<newline>Props jane, john for testing, bob.'') ''Props''"
  by code_simp

section \<open>The line of thanks\<close>

lemma example_single_render:
  "renderCategories [exampleChangeset [''Editor''] ''Alice'' []] =
     Inr (''### Editor\<newline>* Fix. [1] #\<newline>'', [''Alice''])"
  by code_simp

lemma example_single_uniq:
  "uniq (sortWith (compareFunction codeCompare) [''Alice'']) = [''Alice'']"
  by code_simp

text \<open>
  C4, as the script has it. A list of one contributor \<open>p\<close> is printed through the same
  format with two places, the first left empty: \<open>Thanks to @, and @p for their
  contributions!\<close>.
\<close>

theorem single_credit:
  "renderCategories cs = Inr (out, ps) \<Longrightarrow> uniq (sortWith (compareFunction lc) ps) = [p] \<Longrightarrow>
   buildOutput lc cs =
     Inr \<lparr> changesetOutput = out,
           propsOutput = ''Thanks to @, and @'' @ p @ '' for their contributions!'' \<rparr>"
  by (simp add: buildOutput_def propsLine_def)

theorem single_credit_witness:
  "buildOutput codeCompare [exampleChangeset [''Editor''] ''Alice'' []] =
     Inr \<lparr> changesetOutput = ''### Editor\<newline>* Fix. [1] #\<newline>'',
           propsOutput = ''Thanks to @, and @Alice for their contributions!'' \<rparr>"
  using single_credit [OF example_single_render example_single_uniq] by simp

text \<open>
  One changeset of author \<open>Alice\<close> without props: the line is not
  \<open>Thanks to @Alice for their contributions!\<close>.
\<close>

theorem single_credit_counterexample:
  "map_sum id propsOutput (buildOutput codeCompare [exampleChangeset [''Editor''] ''Alice'' []]) =
     Inr ''Thanks to @, and @Alice for their contributions!'' \<and>
   map_sum id propsOutput (buildOutput codeCompare [exampleChangeset [''Editor''] ''Alice'' []]) \<noteq>
     Inr ''Thanks to @Alice for their contributions!''"
  by code_simp

section \<open>Requests that fail\<close>

text \<open>
  C7, at an input where the script and the specification part. The only ticket of the changeset
  gets no answer: the changeset keeps an empty list of components, the run goes on and
  prints it, but under a heading with an empty name, not under \<open>Misc\<close>.
\<close>

theorem failed_request_bucket:
  "map component
     (gatherComponents (\<lambda>ticket. Failed) (\<lambda>ts. ts) (buildChangesets plainText [exampleRevRow, exampleLogRow])) = [[]] \<and>
   buildOutput codeCompare
     (gatherComponents (\<lambda>ticket. Failed) (\<lambda>ts. ts) (buildChangesets plainText [exampleRevRow, exampleLogRow])) =
     Inr \<lparr> changesetOutput = ''### \<newline>* Fix the `foo` bug. [4321] #12\<newline>'',
           propsOutput = ''Thanks to @alice, and @bob for their contributions!'' \<rparr>"
  by code_simp

section \<open>Buckets and sections\<close>

lemma set_firstOccurrences [simp]: "set (firstOccurrences xs) = set xs"
  by (induction xs) auto

lemma distinct_firstOccurrences [simp]: "distinct (firstOccurrences xs)"
  by (induction xs) auto

lemma firstOccurrences_snoc:
  "firstOccurrences (xs @ [x]) = (if x \<in> set xs then firstOccurrences xs else firstOccurrences xs @ [x])"
proof (induction xs)
  case Nil
  then show ?case by simp
next
  case (Cons y xs)
  have "filter (\<lambda>z. z \<noteq> y) (firstOccurrences xs @ [x]) =
        filter (\<lambda>z. z \<noteq> y) (firstOccurrences xs) @ (if x = y then [] else [x])" by simp
  with Cons show ?case by auto
qed

lemma map_of_setProperty: "map_of (setProperty obj k v) = (map_of obj)(k \<mapsto> v)"
  by (induction obj k v rule: setProperty.induct) auto

lemma setProperty_new: "map_of obj k = None \<Longrightarrow> setProperty obj k v = obj @ [(k, v)]"
  by (induction obj k v rule: setProperty.induct) (auto split: if_splits)

lemma setProperty_last: "setProperty (obj @ [(k, v)]) k w = (if map_of obj k = None then obj @ [(k, w)] else setProperty obj k w @ [(k, v)])"
  by (induction obj k w rule: setProperty.induct) (auto split: if_splits)

lemma setProperty_map:
  "k0 \<in> set ks \<Longrightarrow> distinct ks \<Longrightarrow>
   setProperty (map (\<lambda>k. (k, f k)) ks) k0 v = map (\<lambda>k. (k, if k = k0 then v else f k)) ks"
  by (induction ks) auto

lemma map_of_map_key: "map_of (map (\<lambda>k. (k, f k)) ks) k = (if k \<in> set ks then Some (f k) else None)"
  by (induction ks) auto

lemma categorize_eq:
  "categorize cats item =
     (case map_of cats (key item) of
        Some b \<Rightarrow> Inr (setProperty cats (key item) (b @ [item]))
      | None \<Rightarrow> if key item \<in> set objectPrototype then Inl TypeError
                else Inr (cats @ [(key item, [item])]))"
  by (auto simp: categorize_def getProperty_def key_def Let_def map_of_setProperty setProperty_new setProperty_last
      split: option.splits)

lemma categorizeAll_snoc:
  "categorizeAll cats (cs @ [c]) =
     (case categorizeAll cats cs of Inl e \<Rightarrow> Inl e | Inr cats' \<Rightarrow> categorize cats' c)"
  by (induction cs arbitrary: cats) (auto split: sum.splits)

lemma bucketsOf_snoc:
  "bucketsOf (cs @ [c]) =
     (if key c \<in> key ` set cs
      then setProperty (bucketsOf cs) (key c) (filter (\<lambda>x. key x = key c) cs @ [c])
      else bucketsOf cs @ [(key c, [c])])"
proof (cases "key c \<in> key ` set cs")
  case True
  then show ?thesis
    by (auto simp: bucketsOf_def firstOccurrences_snoc setProperty_map)
next
  case False
  then have "filter (\<lambda>x. key x = key c) cs = []"
    by (auto simp: filter_empty_conv intro: rev_image_eqI)
  with False show ?thesis
    by (auto simp: bucketsOf_def firstOccurrences_snoc)
qed

lemma categorizeAll_buckets:
  "\<forall>c \<in> set cs. key c \<notin> set objectPrototype \<Longrightarrow> categorizeAll [] cs = Inr (bucketsOf cs)"
proof (induction cs rule: rev_induct)
  case Nil
  then show ?case by (simp add: bucketsOf_def)
next
  case (snoc c cs)
  then have ih: "categorizeAll [] cs = Inr (bucketsOf cs)" and k: "key c \<notin> set objectPrototype"
    by auto
  have m: "map_of (bucketsOf cs) (key c) =
        (if key c \<in> key ` set cs then Some (filter (\<lambda>x. key x = key c) cs) else None)"
    by (simp add: bucketsOf_def map_of_map_key)
  show ?case
    by (simp add: categorizeAll_snoc ih categorize_eq m k bucketsOf_snoc)
qed

lemma eachChangeset_eq:
  "eachChangeset cs (out, ps) =
     (out @ concat (map changesetLine cs), ps @ concat (map (\<lambda>c. author c # props c) cs))"
  by (induction cs arbitrary: out ps) (auto simp: credit_def Let_def)

lemma eachCategory_eq:
  "[] \<notin> set bs \<Longrightarrow>
   eachCategory bs (out, ps) =
     Inr (out @ concat (map sectionOf bs),
          ps @ concat (map (\<lambda>b. concat (map (\<lambda>c. author c # props c) b)) bs))"
proof (induction bs arbitrary: out ps)
  case Nil
  then show ?case by simp
next
  case (Cons b bs)
  then obtain c cs where b: "b = c # cs" by (cases b) auto
  show ?case using Cons
    by (simp add: b eachChangeset_eq key_def)
qed

lemma keys_bucketsOf: "keys (bucketsOf cs) = sectionOrder (map key cs)"
  by (simp add: keys_def bucketsOf_def sectionOrder_def comp_def)

lemma set_sectionOrder: "set (sectionOrder ks) = set ks"
  by (auto simp: sectionOrder_def)

lemma values_of_buckets:
  "values_of (bucketsOf cs) = map (\<lambda>k. filter (\<lambda>c. key c = k) cs) (sectionOrder (map key cs))"
proof -
  have "List.map_filter (map_of (bucketsOf cs)) ks = map (\<lambda>k. filter (\<lambda>c. key c = k) cs) ks"
    if "set ks \<subseteq> key ` set cs" for ks
    using that by (induction ks) (auto simp: List.map_filter_simps bucketsOf_def map_of_map_key)
  then show ?thesis
    by (simp add: values_of_def keys_bucketsOf set_sectionOrder)
qed

lemma renderCategories_eq:
  assumes "\<forall>c \<in> set cs. key c \<notin> set objectPrototype"
  shows "renderCategories cs =
     Inr (concat (map (\<lambda>k. ''### '' @ k @ [LF] @ concat (map changesetLine (filter (\<lambda>c. key c = k) cs)))
            (sectionOrder (map key cs))),
          concat (map (\<lambda>k. concat (map (\<lambda>c. author c # props c) (filter (\<lambda>c. key c = k) cs)))
            (sectionOrder (map key cs))))"
proof -
  have ne: "[] \<notin> set (values_of (bucketsOf cs))"
    by (auto simp: values_of_buckets set_sectionOrder filter_empty_conv empty_filter_conv)
  have hd: "sectionOf (filter (\<lambda>c. key c = k) cs) =
      ''### '' @ k @ [LF] @ concat (map changesetLine (filter (\<lambda>c. key c = k) cs))"
    if "k \<in> set (sectionOrder (map key cs))" for k
  proof -
    from that have ne: "filter (\<lambda>c. key c = k) cs \<noteq> []"
      by (auto simp: set_sectionOrder filter_empty_conv)
    then obtain c b where b: "filter (\<lambda>c. key c = k) cs = c # b"
      by (cases "filter (\<lambda>c. key c = k) cs") auto
    have "c \<in> set (filter (\<lambda>c. key c = k) cs)" by (simp add: b)
    then have "key c = k" by simp
    then show ?thesis by (simp add: b)
  qed
  have "map sectionOf (values_of (bucketsOf cs)) =
        map (\<lambda>k. ''### '' @ k @ [LF] @ concat (map changesetLine (filter (\<lambda>c. key c = k) cs)))
          (sectionOrder (map key cs))"
    by (simp add: values_of_buckets hd)
  then have sec: "concat (map sectionOf (values_of (bucketsOf cs))) =
        concat (map (\<lambda>k. ''### '' @ k @ [LF] @ concat (map changesetLine (filter (\<lambda>c. key c = k) cs)))
          (sectionOrder (map key cs)))"
    by (rule arg_cong)
  have cr: "concat (map (\<lambda>b. concat (map (\<lambda>c. author c # props c) b)) (values_of (bucketsOf cs))) =
        concat (map (\<lambda>k. concat (map (\<lambda>c. author c # props c) (filter (\<lambda>c. key c = k) cs)))
          (sectionOrder (map key cs)))"
    by (simp add: values_of_buckets comp_def)
  show ?thesis
    unfolding renderCategories_def categorizeAll_buckets[OF assms]
    using eachCategory_eq[OF ne, of "[]" "[]"] sec cr by simp
qed

lemma setProperty_keys:
  "fst ` set (setProperty obj k v) = insert k (fst ` set obj)"
  by (induction obj k v rule: setProperty.induct) auto

lemma categorize_keys:
  assumes "categorize cats c = Inr cats'"
  shows "fst ` set cats' \<subseteq> insert (key c) (fst ` set cats)"
proof (cases "map_of cats (key c)")
  case None
  with assms have "cats' = cats @ [(key c, [c])]"
    by (simp add: categorize_eq split: if_splits)
  then show ?thesis by (simp add: image_Un)
next
  case (Some b)
  with assms have "cats' = setProperty cats (key c) (b @ [c])"
    by (simp add: categorize_eq)
  then show ?thesis by (simp add: setProperty_keys)
qed

lemma categorize_ok:
  "key c \<notin> set objectPrototype \<Longrightarrow> \<exists>cats'. categorize cats c = Inr cats'"
  by (cases "map_of cats (key c)") (simp_all add: categorize_eq)

lemma categorizeAll_error:
  "\<forall>k \<in> fst ` set cats. k \<notin> set objectPrototype \<Longrightarrow> \<exists>c \<in> set cs. key c \<in> set objectPrototype \<Longrightarrow>
   categorizeAll cats cs = Inl TypeError"
proof (induction cs arbitrary: cats)
  case Nil
  then show ?case by simp
next
  case (Cons c cs)
  show ?case
  proof (cases "key c \<in> set objectPrototype")
    case True
    then have "key c \<notin> fst ` set cats"
      using Cons.prems(1) by blast
    then have "map_of cats (key c) = None"
      by (simp add: map_of_eq_None_iff)
    with True show ?thesis by (simp add: categorize_eq)
  next
    case False
    then obtain cats' where Inr: "categorize cats c = Inr cats'"
      using categorize_ok by blast
    have "\<forall>k \<in> fst ` set cats'. k \<notin> set objectPrototype"
    proof
      fix k assume "k \<in> fst ` set cats'"
      then have "k = key c \<or> k \<in> fst ` set cats"
        using categorize_keys[OF Inr] by auto
      then show "k \<notin> set objectPrototype"
        using Cons.prems(1) False by auto
    qed
    moreover have "\<exists>c \<in> set cs. key c \<in> set objectPrototype"
      using Cons.prems(2) False by auto
    ultimately show ?thesis using Cons.IH Inr by simp
  qed
qed

lemma renderCategories_error:
  "\<exists>c \<in> set cs. key c \<in> set objectPrototype \<Longrightarrow> renderCategories cs = Inl TypeError"
  using categorizeAll_error[of "[]" cs] by (simp add: renderCategories_def)

lemma concat_map_split:
  "x \<in> set xs \<Longrightarrow> \<exists>pre post. concat (map f xs) = pre @ f x @ post"
proof -
  assume "x \<in> set xs"
  then obtain ys zs where "xs = ys @ x # zs" by (auto simp: in_set_conv_decomp)
  then have "concat (map f xs) = concat (map f ys) @ f x @ concat (map f zs)" by simp
  then show ?thesis by blast
qed

lemma line_in_output:
  assumes "renderCategories cs = Inr (out, ps)" "c \<in> set cs"
  shows "\<exists>pre post. out = pre @ changesetLine c @ post"
proof -
  have np: "\<forall>c \<in> set cs. key c \<notin> set objectPrototype"
    using assms(1) renderCategories_error[of cs] by auto
  have k: "key c \<in> set (sectionOrder (map key cs))"
    using assms(2) by (simp add: set_sectionOrder)
  have "c \<in> set (filter (\<lambda>x. key x = key c) cs)" using assms(2) by simp
  from concat_map_split[OF this, of changesetLine]
  obtain p1 q1 where 1: "concat (map changesetLine (filter (\<lambda>x. key x = key c) cs)) = p1 @ changesetLine c @ q1"
    by blast
  from concat_map_split[OF k, of "\<lambda>k. ''### '' @ k @ [LF] @ concat (map changesetLine (filter (\<lambda>c. key c = k) cs))"]
  obtain p2 q2 where 2: "concat (map (\<lambda>k. ''### '' @ k @ [LF] @ concat (map changesetLine (filter (\<lambda>c. key c = k) cs)))
            (sectionOrder (map key cs))) =
       p2 @ (''### '' @ key c @ [LF] @ concat (map changesetLine (filter (\<lambda>x. key x = key c) cs))) @ q2"
    by blast
  have "out = (p2 @ ''### '' @ key c @ [LF] @ p1) @ changesetLine c @ (q1 @ q2)"
    using assms(1) unfolding renderCategories_eq[OF np] 2 1 by simp
  then show ?thesis by blast
qed

lemma dropWhile_last:
  "xs \<noteq> [] \<Longrightarrow> \<not> P (last xs) \<Longrightarrow> dropWhile P xs \<noteq> [] \<and> last (dropWhile P xs) = last xs"
  by (induction xs) (auto split: if_splits)

lemma trim_ends: "trim s = [] \<or> (\<not> isWhiteSpace (hd (trim s)) \<and> \<not> isWhiteSpace (last (trim s)))"
proof (cases "dropWhile isWhiteSpace s = []")
  case True
  have "trim s = []" unfolding trim_def True by simp
  then show ?thesis by simp
next
  case False
  define u where "u = dropWhile isWhiteSpace s"
  have u: "u \<noteq> []" "\<not> isWhiteSpace (hd u)"
    using False hd_dropWhile[of isWhiteSpace s] by (simp_all add: u_def)
  then have "\<not> isWhiteSpace (last (rev u))" by (simp add: last_rev)
  with u have d: "dropWhile isWhiteSpace (rev u) \<noteq> []"
    "last (dropWhile isWhiteSpace (rev u)) = hd u"
    using dropWhile_last[of "rev u" isWhiteSpace] by (simp_all add: last_rev)
  have t: "trim s = rev (dropWhile isWhiteSpace (rev u))" by (simp add: trim_def u_def)
  have "hd (trim s) = hd u" using d by (simp add: t hd_rev)
  moreover have "\<not> isWhiteSpace (last (trim s))"
    using d(1) hd_dropWhile[of isWhiteSpace "rev u"] by (simp add: t last_rev)
  ultimately show ?thesis using u by simp
qed

lemma trim_fixed: "s = [] \<or> (\<not> isWhiteSpace (hd s) \<and> \<not> isWhiteSpace (last s)) \<Longrightarrow> trim s = s"
proof (cases s)
  case Nil
  then show ?thesis by (simp add: trim_def)
next
  case (Cons a t)
  assume "s = [] \<or> (\<not> isWhiteSpace (hd s) \<and> \<not> isWhiteSpace (last s))"
  with Cons have h: "\<not> isWhiteSpace a" "\<not> isWhiteSpace (last s)" by auto
  have "dropWhile isWhiteSpace s = s" using h Cons by simp
  moreover have "dropWhile isWhiteSpace (rev s) = rev s"
  proof (cases s rule: rev_cases)
    case Nil
    then show ?thesis by simp
  next
    case (snoc ys y)
    then show ?thesis using h(2) by simp
  qed
  ultimately show ?thesis by (simp add: trim_def)
qed

lemma trim_idem: "trim (trim s) = trim s"
  by (rule trim_fixed[OF trim_ends])

section \<open>Entries of the report\<close>

lemma buildOutput_render:
  "buildOutput lc cs = Inr out \<Longrightarrow> \<exists>ps. renderCategories cs = Inr (changesetOutput out, ps)"
  by (auto simp: buildOutput_def split: sum.splits)

lemma gathered_description:
  "c \<in> set (gatherComponents request arrival (buildChangesets parse rows)) \<Longrightarrow>
   \<exists>r1 r2. description c = description (buildChangeset parse r1 r2)"
proof -
  have "c0 \<in> set (buildChangesets parse rows) \<Longrightarrow> \<exists>r1 r2. c0 = buildChangeset parse r1 r2" for c0
    by (induction parse rows rule: buildChangesets.induct) auto
  then show "c \<in> set (gatherComponents request arrival (buildChangesets parse rows)) \<Longrightarrow>
   \<exists>r1 r2. description c = description (buildChangeset parse r1 r2)"
    by (fastforce simp: gatherComponents_def gatherComponent_def)
qed

lemma description_trimmed: "trim (description (buildChangeset parse r1 r2)) = description (buildChangeset parse r1 r2)"
  by (simp add: buildChangeset_def Let_def trim_idem)

lemma join_eq:
  "join sep xs = (case xs of [] \<Rightarrow> [] | t # ts \<Rightarrow> t @ concat (map (\<lambda>u. sep @ u) ts))"
  by (induction sep xs rule: join.induct) simp_all

lemma changesetLine_eq:
  "changesetLine =
     (\<lambda>c. ''* '' @ trim (description c) @ '' '' @ revision c @ '' #'' @
        (case related c of [] \<Rightarrow> [] | t # ts \<Rightarrow> t @ concat (map (\<lambda>u. '', #'' @ u) ts)) @ [LF])"
  by (rule ext) (simp add: changesetLine_def join_eq[of "'', #''"])

text \<open>
  C8. The part of a printed report that lists the changesets is, section by section in
  the order of the sections, the heading of the section and then one entry for every
  changeset filed under it, in the order of the changesets; nothing else. An entry is
  an asterisk and a space, the description, a space, the revision, a space, a \<open>#\<close>,
  the tickets with a comma, a space and a \<open>#\<close> between two of them, and a
  newline. Without tickets the entry ends with the single \<open>#\<close>. The script trims
  the description once more, which changes nothing for a changeset that comes from the
  extraction.
\<close>

theorem changeset_lines:
  assumes "buildOutput lc cs = Inr out" "c \<in> set cs"
  shows "changesetOutput out =
           concat (map (\<lambda>k. ''### '' @ k @ [LF] @
                     concat (map (\<lambda>e. ''* '' @ trim (description e) @ '' '' @ revision e @ '' #'' @
                                   (case related e of [] \<Rightarrow> []
                                    | t # ts \<Rightarrow> t @ concat (map (\<lambda>u. '', #'' @ u) ts)) @ [LF])
                        (filter (\<lambda>e. key e = k) cs)))
                   (sectionOrder (map key cs))) \<and>
         (\<exists>pre post. changesetOutput out =
            pre @ ''* '' @ trim (description c) @ '' '' @ revision c @ '' #'' @
              (case related c of [] \<Rightarrow> [] | t # ts \<Rightarrow> t @ concat (map (\<lambda>u. '', #'' @ u) ts)) @
              [LF] @ post) \<and>
         (related c = [] \<longrightarrow>
            (\<exists>pre post. changesetOutput out =
               pre @ ''* '' @ trim (description c) @ '' '' @ revision c @ '' #'' @ [LF] @ post)) \<and>
         (cs = gatherComponents request arrival (buildChangesets parse rows) \<longrightarrow>
            trim (description c) = description c)"
proof -
  obtain ps where r: "renderCategories cs = Inr (changesetOutput out, ps)"
    using buildOutput_render[OF assms(1)] by blast
  have np: "\<forall>c \<in> set cs. key c \<notin> set objectPrototype"
    using r renderCategories_error[of cs] by auto
  have 0: "changesetOutput out =
           concat (map (\<lambda>k. ''### '' @ k @ [LF] @
                     concat (map (\<lambda>e. ''* '' @ trim (description e) @ '' '' @ revision e @ '' #'' @
                                   (case related e of [] \<Rightarrow> []
                                    | t # ts \<Rightarrow> t @ concat (map (\<lambda>u. '', #'' @ u) ts)) @ [LF])
                        (filter (\<lambda>e. key e = k) cs)))
                   (sectionOrder (map key cs)))"
    using r unfolding renderCategories_eq[OF np] changesetLine_eq by simp
  from line_in_output[OF r assms(2)]
  obtain pre post where l: "changesetOutput out = pre @ changesetLine c @ post" by blast
  have 1: "\<exists>pre post. changesetOutput out =
            pre @ ''* '' @ trim (description c) @ '' '' @ revision c @ '' #'' @
              (case related c of [] \<Rightarrow> [] | t # ts \<Rightarrow> t @ concat (map (\<lambda>u. '', #'' @ u) ts)) @
              [LF] @ post"
    by (rule exI[of _ pre], rule exI[of _ post]) (simp add: l changesetLine_eq)
  have 2: "related c = [] \<longrightarrow>
            (\<exists>pre post. changesetOutput out =
               pre @ ''* '' @ trim (description c) @ '' '' @ revision c @ '' #'' @ [LF] @ post)"
  proof
    assume "related c = []"
    then show "\<exists>pre post. changesetOutput out =
               pre @ ''* '' @ trim (description c) @ '' '' @ revision c @ '' #'' @ [LF] @ post"
      by (intro exI[of _ pre] exI[of _ post]) (simp add: l changesetLine_eq)
  qed
  have 3: "cs = gatherComponents request arrival (buildChangesets parse rows) \<longrightarrow>
            trim (description c) = description c"
    using gathered_description[of c request arrival parse rows] assms(2) description_trimmed by auto
  from 0 1 2 3 show ?thesis by blast
qed

lemma exampleReport_output:
  "buildOutput codeCompare exampleReport =
     Inr \<lparr> changesetOutput = ''### Editor\<newline>* Fix. [4321] #12, #13\<newline>### \<newline>* Props jane. [4321] #\<newline>'',
           propsOutput = ''Thanks to @, and @alice for their contributions!'' \<rparr>"
  by code_simp

lemma exampleReport_members:
  "exampleReport ! 0 \<in> set exampleReport"
  "exampleReport ! 1 \<in> set exampleReport"
  "exampleReport = gatherComponents exampleRequest (\<lambda>ts. ts)
       (buildChangesets plainText [exampleRevRow, exampleTwoTickets, exampleRevRow, examplePropsRow])"
  "related (exampleReport ! 0) = [''12'', ''13'']"
  "related (exampleReport ! 1) = []"
  "description (exampleReport ! 0) = ''Fix.''"
  "description (exampleReport ! 1) = ''Props jane.''"
  "revision (exampleReport ! 0) = ''[4321]''"
  "revision (exampleReport ! 1) = ''[4321]''"
  "component (exampleReport ! 0) = [''Editor'']"
  "component (exampleReport ! 1) = []"
  "concat (map (\<lambda>k. ''### '' @ k @ [LF] @
                     concat (map (\<lambda>e. ''* '' @ trim (description e) @ '' '' @ revision e @ '' #'' @
                                   (case related e of [] \<Rightarrow> []
                                    | t # ts \<Rightarrow> t @ concat (map (\<lambda>u. '', #'' @ u) ts)) @ [LF])
                        (filter (\<lambda>e. key e = k) exampleReport)))
                   (sectionOrder (map key exampleReport))) =
     ''### Editor\<newline>* Fix. [4321] #12, #13\<newline>### \<newline>* Props jane. [4321] #\<newline>''"
  by code_simp+

theorem changeset_lines_witness:
  "(\<exists>pre post. ''### Editor\<newline>* Fix. [4321] #12, #13\<newline>### \<newline>* Props jane. [4321] #\<newline>'' =
       pre @ ''* Fix. [4321] #12, #13\<newline>'' @ post) \<and>
   (\<exists>pre post. ''### Editor\<newline>* Fix. [4321] #12, #13\<newline>### \<newline>* Props jane. [4321] #\<newline>'' =
       pre @ ''* Props jane. [4321] #\<newline>'' @ post) \<and>
   trim (description (exampleReport ! 0)) = ''Fix.'' \<and>
   trim (description (exampleReport ! 1)) = ''Props jane.''"
proof -
  note first = changeset_lines [OF exampleReport_output exampleReport_members(1),
      of exampleRequest "\<lambda>ts. ts" plainText
        "[exampleRevRow, exampleTwoTickets, exampleRevRow, examplePropsRow]", THEN conjunct2]
  note second = changeset_lines [OF exampleReport_output exampleReport_members(2),
      of exampleRequest "\<lambda>ts. ts" plainText
        "[exampleRevRow, exampleTwoTickets, exampleRevRow, examplePropsRow]", THEN conjunct2]
  have t0: "trim ''Fix.'' = ''Fix.''" and t1: "trim ''Props jane.'' = ''Props jane.''"
    by code_simp+
  from first second exampleReport_members(3-9) t0 t1 show ?thesis
    by (simp add: LF_def)
qed

section \<open>Sections of the report\<close>

lemma sectionOrder_plain:
  "\<forall>k \<in> set ks. \<not> isArrayIndex k \<Longrightarrow> sectionOrder ks = firstOccurrences ks"
proof -
  assume a: "\<forall>k \<in> set ks. \<not> isArrayIndex k"
  then have "filter isArrayIndex (firstOccurrences ks) = []"
    by (simp add: filter_empty_conv)
  moreover have "filter (\<lambda>k. \<not> isArrayIndex k) (firstOccurrences ks) = firstOccurrences ks"
    using a by (simp add: filter_id_conv)
  ultimately show ?thesis by (simp add: sectionOrder_def)
qed

lemma key_single: "component c = [x] \<Longrightarrow> key c = x"
  by (simp add: key_def)

text \<open>
  C2, as the script has it. For changesets that each have a component, none of whose
  property names is inherited from \<^verbatim>\<open>Object.prototype\<close>: one pass files each
  changeset under the property name made of all its components joined by commas, which
  is the component itself when there is one; a bucket is created at the first changeset
  of its name and the later ones are appended. The report has one section per bucket,
  in the order of creation when no name is an array index.
\<close>

theorem buckets_by_key:
  assumes "\<forall>c \<in> set cs. component c \<noteq> [] \<and> key c \<notin> set objectPrototype"
  shows "categorizeAll [] cs = Inr (bucketsOf cs) \<and>
         map_sum id changesetOutput (buildOutput lc cs) =
           Inr (concat (map (\<lambda>k. ''### '' @ k @ [LF] @
                               concat (map changesetLine (filter (\<lambda>c. key c = k) cs)))
                  (sectionOrder (map key cs)))) \<and>
         ((\<forall>c \<in> set cs. \<not> isArrayIndex (key c)) \<longrightarrow>
            sectionOrder (map key cs) = firstOccurrences (map key cs)) \<and>
         (\<forall>c \<in> set cs. key c = join '','' (component c) \<and> (\<forall>x. component c = [x] \<longrightarrow> key c = x))"
proof -
  have np: "\<forall>c \<in> set cs. key c \<notin> set objectPrototype" using assms by simp
  have 1: "categorizeAll [] cs = Inr (bucketsOf cs)"
    by (rule categorizeAll_buckets[OF np])
  have 2: "map_sum id changesetOutput (buildOutput lc cs) =
           Inr (concat (map (\<lambda>k. ''### '' @ k @ [LF] @
                               concat (map changesetLine (filter (\<lambda>c. key c = k) cs)))
                  (sectionOrder (map key cs))))"
    by (simp add: buildOutput_def renderCategories_eq[OF np])
  have 3: "(\<forall>c \<in> set cs. \<not> isArrayIndex (key c)) \<longrightarrow>
            sectionOrder (map key cs) = firstOccurrences (map key cs)"
    using sectionOrder_plain[of "map key cs"] by simp
  have 4: "\<forall>c \<in> set cs. key c = join '','' (component c) \<and> (\<forall>x. component c = [x] \<longrightarrow> key c = x)"
    by (simp add: key_def)
  from 1 2 3 4 show ?thesis by blast
qed

lemma exampleThree_ok:
  "\<forall>c \<in> set exampleThree. component c \<noteq> [] \<and> key c \<notin> set objectPrototype"
  "\<forall>c \<in> set exampleThree. \<not> isArrayIndex (key c)"
  by code_simp+

lemma exampleThree_values:
  "bucketsOf exampleThree =
     [(''Editor'', [exampleChangeset [''Editor''] ''bob'' [''alice''],
                   exampleChangeset [''Editor''] ''alice'' [''Bob'']]),
      (''Media'', [exampleChangeset [''Media''] ''carol'' []])]"
  "firstOccurrences (map key exampleThree) = [''Editor'', ''Media'']"
  "concat (map (\<lambda>k. ''### '' @ k @ [LF] @
                  concat (map changesetLine (filter (\<lambda>c. key c = k) exampleThree)))
       [''Editor'', ''Media'']) =
     ''### Editor\<newline>* Fix. [1] #\<newline>* Fix. [1] #\<newline>### Media\<newline>* Fix. [1] #\<newline>''"
  by code_simp+

theorem buckets_by_key_witness:
  "categorizeAll [] exampleThree =
     Inr [(''Editor'', [exampleChangeset [''Editor''] ''bob'' [''alice''],
                       exampleChangeset [''Editor''] ''alice'' [''Bob'']]),
          (''Media'', [exampleChangeset [''Media''] ''carol'' []])] \<and>
   map_sum id changesetOutput (buildOutput codeCompare exampleThree) =
     Inr ''### Editor\<newline>* Fix. [1] #\<newline>* Fix. [1] #\<newline>### Media\<newline>* Fix. [1] #\<newline>''"
  using buckets_by_key [OF exampleThree_ok(1), of codeCompare] exampleThree_ok(2) exampleThree_values
  by simp

text \<open>
  Where the specification's sentence fails: two components give the name \<open>Editor,Media\<close>, not
  \<open>Editor\<close>; the bucket \<open>7\<close> is printed before the bucket \<open>Editor\<close> created
  earlier; the component \<open>constructor\<close> ends the run with a type error; and a
  changeset without components comes under a heading with an empty name.
\<close>

theorem buckets_by_key_counterexample:
  "map_sum id changesetOutput
     (buildOutput codeCompare [exampleChangeset [''Editor'', ''Media''] ''bob'' []]) =
     Inr ''### Editor,Media\<newline>* Fix. [1] #\<newline>'' \<and>
   map_sum id changesetOutput
     (buildOutput codeCompare
        [exampleChangeset [''Editor''] ''bob'' [], exampleChangeset [''7''] ''bob'' []]) =
     Inr ''### 7\<newline>* Fix. [1] #\<newline>### Editor\<newline>* Fix. [1] #\<newline>'' \<and>
   buildOutput codeCompare [exampleChangeset [''constructor''] ''bob'' []] = Inl TypeError \<and>
   map_sum id changesetOutput
     (buildOutput codeCompare
        [exampleChangeset [''Editor''] ''bob'' [], exampleChangeset [] ''bob'' []]) =
     Inr ''### Editor\<newline>* Fix. [1] #\<newline>### \<newline>* Fix. [1] #\<newline>''"
  by code_simp

section \<open>Credits\<close>

lemma uniqLoop_remdups_adj:
  "uniqLoop None xs = remdups_adj xs" "uniqLoop (Some y) xs = tl (remdups_adj (y # xs))"
proof -
  have s: "uniqLoop (Some y) xs = tl (remdups_adj (y # xs))" for y xs
  proof (induction xs arbitrary: y)
    case Nil
    then show ?case by simp
  next
    case (Cons x xs)
    have "remdups_adj (x # xs) = x # tl (remdups_adj (x # xs))"
      by (cases xs) (auto simp: remdups_adj_Cons split: list.splits)
    with Cons show ?case by auto
  qed
  show "uniqLoop (Some y) xs = tl (remdups_adj (y # xs))" by (rule s)
  show "uniqLoop None xs = remdups_adj xs"
  proof (cases xs)
    case Nil
    then show ?thesis by simp
  next
    case (Cons x xs')
    have "remdups_adj (x # xs') = x # tl (remdups_adj (x # xs'))"
      by (cases xs') (auto simp: remdups_adj_Cons split: list.splits)
    then show ?thesis using Cons s[of x xs'] by simp
  qed
qed

lemma uniq_remdups_adj: "uniq xs = remdups_adj xs"
  by (simp add: uniq_def uniqLoop_remdups_adj)

lemma mset_insertSorted: "mset (insertSorted cmp x ys) = add_mset x (mset ys)"
  by (induction ys) auto

lemma mset_sortWith: "mset (sortWith cmp xs) = mset xs"
  by (induction xs) (auto simp: sortWith_def mset_insertSorted)

lemma set_insertSorted: "set (insertSorted cmp x ys) = insert x (set ys)"
  by (induction ys) auto

lemma sorted_insertSorted:
  assumes tr: "\<forall>a b c. cmp a b \<le> 0 \<longrightarrow> cmp b c \<le> 0 \<longrightarrow> cmp a c \<le> 0"
    and tot: "\<forall>a b. cmp a b \<le> 0 \<or> cmp b a \<le> 0"
  shows "sorted_wrt (\<lambda>a b. cmp a b \<le> 0) ys \<Longrightarrow> sorted_wrt (\<lambda>a b. cmp a b \<le> (0::int)) (insertSorted cmp x ys)"
proof (induction ys)
  case Nil
  then show ?case by simp
next
  case (Cons y ys)
  show ?case
  proof (cases "cmp x y \<le> 0")
    case True
    then have "\<forall>z \<in> set ys. cmp x z \<le> 0" using Cons.prems tr by auto
    with True Cons.prems show ?thesis by simp
  next
    case False
    then have "cmp y x \<le> 0" using tot by blast
    with False Cons show ?thesis by (auto simp: set_insertSorted)
  qed
qed

lemma sorted_sortWith:
  assumes "\<forall>a b c. cmp a b \<le> 0 \<longrightarrow> cmp b c \<le> 0 \<longrightarrow> cmp a c \<le> 0"
    and "\<forall>a b. cmp a b \<le> 0 \<or> cmp b a \<le> 0"
  shows "sorted_wrt (\<lambda>a b. cmp a b \<le> (0::int)) (sortWith cmp xs)"
  by (induction xs) (auto simp: sortWith_def intro: sorted_insertSorted[OF assms])

lemma mset_partition:
  "distinct ks \<Longrightarrow>
   mset (concat (map (\<lambda>k. filter (\<lambda>c. f c = k) cs) ks)) = mset (filter (\<lambda>c. f c \<in> set ks) cs)"
proof (induction ks)
  case Nil
  then show ?case by simp
next
  case (Cons k ks)
  have "mset (filter (\<lambda>c. f c = k) cs) + mset (filter (\<lambda>c. f c \<in> set ks) cs) =
        mset (filter (\<lambda>c. f c = k \<or> f c \<in> set ks) cs)"
    using Cons.prems by (induction cs) auto
  with Cons show ?case by simp
qed

lemma distinct_sectionOrder: "distinct (sectionOrder ks)"
  by (auto simp: sectionOrder_def)

lemma mset_concat_map: "mset xs = mset ys \<Longrightarrow> mset (concat (map g xs)) = mset (concat (map g ys))"
proof -
  assume a: "mset xs = mset ys"
  have "mset (concat (map g zs)) = (\<Sum>z \<in># mset zs. mset (g z))" for zs
    by (induction zs) auto
  then show ?thesis using a by simp
qed

lemma concat_map_concat:
  "concat (map g (concat (map F ks))) = concat (map (\<lambda>k. concat (map g (F k))) ks)"
  by (induction ks) auto

lemma credits_mset:
  assumes "renderCategories cs = Inr (out, ps)"
  shows "mset ps = mset (concat (map (\<lambda>c. author c # props c) cs))"
proof -
  have np: "\<forall>c \<in> set cs. key c \<notin> set objectPrototype"
    using assms renderCategories_error[of cs] by auto
  have ps: "ps = concat (map (\<lambda>c. author c # props c)
                   (concat (map (\<lambda>k. filter (\<lambda>c. key c = k) cs) (sectionOrder (map key cs)))))"
    using assms unfolding renderCategories_eq[OF np] concat_map_concat by simp
  have "mset (concat (map (\<lambda>k. filter (\<lambda>c. key c = k) cs) (sectionOrder (map key cs)))) =
        mset (filter (\<lambda>c. key c \<in> set (sectionOrder (map key cs))) cs)"
    by (rule mset_partition[OF distinct_sectionOrder])
  also have "\<dots> = mset cs" by (simp add: set_sectionOrder)
  finally show ?thesis unfolding ps by (rule mset_concat_map)
qed

lemma filter_insertSorted:
  "\<forall>a b. P a \<and> P b \<longrightarrow> cmp a b \<le> 0 \<Longrightarrow>
   filter P (insertSorted cmp x ys) = (if P x then x # filter P ys else filter P ys)"
  by (induction ys) auto

lemma filter_sortWith:
  "\<forall>a b. P a \<and> P b \<longrightarrow> cmp a b \<le> 0 \<Longrightarrow> filter P (sortWith cmp xs) = filter P xs"
  by (induction xs) (auto simp: sortWith_def filter_insertSorted)

lemma codeCompare_total: "codeCompare a b \<le> 0 \<or> codeCompare b a \<le> 0"
  by (induction a b rule: codeCompare.induct) auto

lemma codeCompare_trans:
  "codeCompare a b \<le> 0 \<Longrightarrow> codeCompare b c \<le> 0 \<Longrightarrow> codeCompare a c \<le> 0"
proof (induction a arbitrary: b c)
  case Nil
  then show ?case by (cases c) auto
next
  case (Cons x a)
  then obtain y b' where b: "b = y # b'" by (cases b) auto
  with Cons.prems obtain z c' where c: "c = z # c'" by (cases c) auto
  show ?case
    using Cons.prems Cons.IH[of b' c'] unfolding b c
    by (auto split: if_splits)
qed

lemma compareFunction_order:
  "\<forall>a b c. compareFunction codeCompare a b \<le> 0 \<longrightarrow> compareFunction codeCompare b c \<le> 0 \<longrightarrow>
     compareFunction codeCompare a c \<le> 0"
  "\<forall>a b. compareFunction codeCompare a b \<le> 0 \<or> compareFunction codeCompare b a \<le> 0"
  using codeCompare_trans codeCompare_total unfolding compareFunction_def by blast+

lemma credits_collected:
  assumes "renderCategories cs = Inr (out, ps)"
  shows "ps = concat (map (\<lambda>k. concat (map (\<lambda>c. author c # props c) (filter (\<lambda>c. key c = k) cs)))
                (sectionOrder (map key cs)))"
proof -
  have np: "\<forall>c \<in> set cs. key c \<notin> set objectPrototype"
    using assms renderCategories_error[of cs] by auto
  show ?thesis
    using assms unfolding renderCategories_eq[OF np] by simp
qed

text \<open>
  C3, as the script has it. The names are collected section by section, in the order
  of the sections of the report and not in the order of the changesets: under each
  section, for every changeset filed there, its author followed by its props. For a
  comparison function that is transitive and total the sorted list is in its order,
  it is always a rearrangement of the collected names, and names that compare as
  equal keep their order; \<^verbatim>\<open>_.uniq\<close> then drops a name only when it is
  identical, letter case included, to the name before it.
\<close>

theorem credits_sorted_uniq:
  "(renderCategories cs = Inr (out, ps) \<longrightarrow>
      ps = concat (map (\<lambda>k. concat (map (\<lambda>c. author c # props c) (filter (\<lambda>c. key c = k) cs)))
             (sectionOrder (map key cs))) \<and>
      mset ps = mset (concat (map (\<lambda>c. author c # props c) cs)) \<and>
      buildOutput lc cs =
        Inr \<lparr> changesetOutput = out,
              propsOutput = propsLine (remdups_adj (sortWith (compareFunction lc) ps)) \<rparr>) \<and>
   mset (sortWith cmp xs) = mset xs \<and>
   ((\<forall>a b c. cmp a b \<le> 0 \<longrightarrow> cmp b c \<le> 0 \<longrightarrow> cmp a c \<le> 0) \<and> (\<forall>a b. cmp a b \<le> 0 \<or> cmp b a \<le> 0) \<longrightarrow>
      sorted_wrt (\<lambda>a b. cmp a b \<le> 0) (sortWith cmp xs)) \<and>
   ((\<forall>a b. P a \<and> P b \<longrightarrow> cmp a b \<le> 0) \<longrightarrow> filter P (sortWith cmp xs) = filter P xs) \<and>
   uniq xs = remdups_adj xs"
proof -
  have 1: "renderCategories cs = Inr (out, ps) \<longrightarrow>
      ps = concat (map (\<lambda>k. concat (map (\<lambda>c. author c # props c) (filter (\<lambda>c. key c = k) cs)))
             (sectionOrder (map key cs))) \<and>
      mset ps = mset (concat (map (\<lambda>c. author c # props c) cs)) \<and>
      buildOutput lc cs =
        Inr \<lparr> changesetOutput = out,
              propsOutput = propsLine (remdups_adj (sortWith (compareFunction lc) ps)) \<rparr>"
  proof
    assume r: "renderCategories cs = Inr (out, ps)"
    have "buildOutput lc cs =
        Inr \<lparr> changesetOutput = out,
              propsOutput = propsLine (remdups_adj (sortWith (compareFunction lc) ps)) \<rparr>"
      using r by (simp add: buildOutput_def uniq_remdups_adj)
    with credits_collected[OF r] credits_mset[OF r]
    show "ps = concat (map (\<lambda>k. concat (map (\<lambda>c. author c # props c) (filter (\<lambda>c. key c = k) cs)))
             (sectionOrder (map key cs))) \<and>
      mset ps = mset (concat (map (\<lambda>c. author c # props c) cs)) \<and>
      buildOutput lc cs =
        Inr \<lparr> changesetOutput = out,
              propsOutput = propsLine (remdups_adj (sortWith (compareFunction lc) ps)) \<rparr>"
      by blast
  qed
  have 2: "mset (sortWith cmp xs) = mset xs" by (rule mset_sortWith)
  have 3: "(\<forall>a b c. cmp a b \<le> 0 \<longrightarrow> cmp b c \<le> 0 \<longrightarrow> cmp a c \<le> 0) \<and> (\<forall>a b. cmp a b \<le> 0 \<or> cmp b a \<le> 0) \<longrightarrow>
      sorted_wrt (\<lambda>a b. cmp a b \<le> 0) (sortWith cmp xs)"
    using sorted_sortWith[of cmp xs] by blast
  have 4: "(\<forall>a b. P a \<and> P b \<longrightarrow> cmp a b \<le> 0) \<longrightarrow> filter P (sortWith cmp xs) = filter P xs"
    using filter_sortWith[of P cmp xs] by blast
  have 5: "uniq xs = remdups_adj xs" by (rule uniq_remdups_adj)
  from 1 2 3 4 5 show ?thesis by blast
qed

lemma exampleCredits_values:
  "renderCategories exampleCredits =
     Inr (''### Editor\<newline>* Fix. [1] #\<newline>'', [''bob'', ''alice'', ''Bob''])"
  "sortWith (compareFunction codeCompare) [''bob'', ''alice'', ''Bob''] = [''alice'', ''bob'', ''Bob'']"
  "propsLine [''alice'', ''bob'', ''Bob''] = ''Thanks to @alice, @bob, and @Bob for their contributions!''"
  "filter (\<lambda>a. toLowerCase a = ''bob'') [''alice'', ''bob'', ''Bob''] = [''bob'', ''Bob'']"
  "filter (\<lambda>a. toLowerCase a = ''bob'') [''bob'', ''alice'', ''Bob''] = [''bob'', ''Bob'']"
  by code_simp+

lemma exampleBuckets_values:
  "renderCategories exampleBuckets =
     Inr (''### A\<newline>* Fix. [1] #1\<newline>* Fix. [3] #3\<newline>### B\<newline>* Fix. [2] #2\<newline>'', [''bob'', ''bob'', ''Bob''])"
  "sortWith (compareFunction codeCompare) [''bob'', ''bob'', ''Bob''] = [''bob'', ''bob'', ''Bob'']"
  "propsLine [''bob'', ''Bob''] = ''Thanks to @bob, and @Bob for their contributions!''"
  "concat (map (\<lambda>c. author c # props c) exampleBuckets) = [''bob'', ''Bob'', ''bob'']"
  "uniq (sortWith (compareFunction codeCompare) [''bob'', ''Bob'', ''bob'']) = [''bob'', ''Bob'', ''bob'']"
  by code_simp+

lemma exampleCredits_tie:
  "\<forall>a b. toLowerCase a = ''bob'' \<and> toLowerCase b = ''bob'' \<longrightarrow> compareFunction codeCompare a b \<le> 0"
  by (simp add: compareFunction_def)

theorem credits_sorted_uniq_witness:
  "buildOutput codeCompare exampleCredits =
     Inr \<lparr> changesetOutput = ''### Editor\<newline>* Fix. [1] #\<newline>'',
           propsOutput = ''Thanks to @alice, @bob, and @Bob for their contributions!'' \<rparr> \<and>
   buildOutput codeCompare exampleBuckets =
     Inr \<lparr> changesetOutput = ''### A\<newline>* Fix. [1] #1\<newline>* Fix. [3] #3\<newline>### B\<newline>* Fix. [2] #2\<newline>'',
           propsOutput = ''Thanks to @bob, and @Bob for their contributions!'' \<rparr> \<and>
   sorted_wrt (\<lambda>a b. compareFunction codeCompare a b \<le> 0) [''alice'', ''bob'', ''Bob''] \<and>
   filter (\<lambda>a. toLowerCase a = ''bob'') (sortWith (compareFunction codeCompare) [''bob'', ''alice'', ''Bob'']) =
     [''bob'', ''Bob''] \<and>
   uniq [''alice'', ''bob'', ''Bob''] = [''alice'', ''bob'', ''Bob'']"
proof -
  note a = credits_sorted_uniq [of exampleCredits "''### Editor\<newline>* Fix. [1] #\<newline>''"
      "[''bob'', ''alice'', ''Bob'']" codeCompare "compareFunction codeCompare" "[''bob'', ''alice'', ''Bob'']"
      "\<lambda>a. toLowerCase a = ''bob''"]
  note b = credits_sorted_uniq [of "[]" "[]" "[]" codeCompare "compareFunction codeCompare" "[''alice'', ''bob'', ''Bob'']"
      "\<lambda>a. toLowerCase a = ''bob''"]
  note c = credits_sorted_uniq [of exampleBuckets
      "''### A\<newline>* Fix. [1] #1\<newline>* Fix. [3] #3\<newline>### B\<newline>* Fix. [2] #2\<newline>''"
      "[''bob'', ''bob'', ''Bob'']" codeCompare "compareFunction codeCompare" "[]" "\<lambda>a. True",
      THEN conjunct1, rule_format, OF exampleBuckets_values(1), THEN conjunct2, THEN conjunct2]
  have 1: "buildOutput codeCompare exampleBuckets =
     Inr \<lparr> changesetOutput = ''### A\<newline>* Fix. [1] #1\<newline>* Fix. [3] #3\<newline>### B\<newline>* Fix. [2] #2\<newline>'',
           propsOutput = ''Thanks to @bob, and @Bob for their contributions!'' \<rparr>"
    using c exampleBuckets_values(2,3) by simp
  from a b compareFunction_order exampleCredits_values exampleCredits_tie
  have "buildOutput codeCompare exampleCredits =
     Inr \<lparr> changesetOutput = ''### Editor\<newline>* Fix. [1] #\<newline>'',
           propsOutput = ''Thanks to @alice, @bob, and @Bob for their contributions!'' \<rparr> \<and>
   sorted_wrt (\<lambda>a b. compareFunction codeCompare a b \<le> 0) [''alice'', ''bob'', ''Bob''] \<and>
   filter (\<lambda>a. toLowerCase a = ''bob'') (sortWith (compareFunction codeCompare) [''bob'', ''alice'', ''Bob'']) =
     [''bob'', ''Bob''] \<and>
   uniq [''alice'', ''bob'', ''Bob''] = [''alice'', ''bob'', ''Bob'']"
    by simp
  with 1 show ?thesis by blast
qed

text \<open>
  The names \<open>bob\<close>, \<open>alice\<close>, \<open>Bob\<close> keep three entries: \<open>bob\<close> and \<open>Bob\<close> are
  neighbours after the sort and differ. With the authors \<open>bob\<close>, \<open>Bob\<close>, \<open>bob\<close>
  on tickets with the components A, B, A, the two \<open>bob\<close> of section A are collected
  first and become one; in the order of the changesets they would not be neighbours.
\<close>

theorem credits_sorted_uniq_counterexample:
  "uniq (sortWith (compareFunction codeCompare) [''bob'', ''alice'', ''Bob'']) = [''alice'', ''bob'', ''Bob''] \<and>
   length (uniq (sortWith (compareFunction codeCompare) [''bob'', ''alice'', ''Bob''])) = 3 \<and>
   map_sum id propsOutput (buildOutput codeCompare exampleCredits) =
     Inr ''Thanks to @alice, @bob, and @Bob for their contributions!'' \<and>
   concat (map (\<lambda>c. author c # props c) exampleBuckets) = [''bob'', ''Bob'', ''bob''] \<and>
   propsLine (uniq (sortWith (compareFunction codeCompare) (concat (map (\<lambda>c. author c # props c) exampleBuckets)))) =
     ''Thanks to @Bob, and @bob for their contributions!'' \<and>
   map_sum id propsOutput (buildOutput codeCompare exampleBuckets) =
     Inr ''Thanks to @bob, and @Bob for their contributions!''"
  by code_simp

section \<open>The final description\<close>

lemma startsWithI_before:
  "startsWithI w (p @ j # x) \<Longrightarrow> outside j w \<Longrightarrow> startsWithI w p"
proof (induction w arbitrary: p)
  case Nil
  then show ?case by (simp add: startsWithI_Nil)
next
  case (Cons a w)
  show ?case
  proof (cases p)
    case Nil
    with Cons.prems show ?thesis by (auto simp: startsWithI_Cons outside_def)
  next
    case (Cons b p')
    with Cons.prems Cons.IH[of p'] show ?thesis
      by (auto simp: startsWithI_Cons outside_def)
  qed
qed

lemma startsWithI_append: "startsWithI w p \<Longrightarrow> startsWithI w (p @ q)"
  by (induction w arbitrary: p) (auto simp: startsWithI_Nil startsWithI_Cons)

lemma dotStar_stop: "isLineTerminator j \<Longrightarrow> dotStar (a @ j # x) = dotStar a"
  by (induction a) (auto simp: dotStar_def)

lemma dotStar_line: "lineRest rest post \<Longrightarrow> dotStar (rest @ post) = rest"
  by (cases post) (auto simp: dotStar_def lineRest_def takeWhile_append2)

lemma wordI_length: "wordI w lit \<Longrightarrow> length w = length lit"
  unfolding wordI_def using map_eq_imp_length_eq by blast

lemma wordI_startsWithI: "wordI w lit \<Longrightarrow> startsWithI lit (w @ s)"
  using wordI_length[of w lit] by (simp add: wordI_def startsWithI_def)

lemma replaceFirst_skip:
  assumes q: "\<And>c p. m (c # p) = None \<Longrightarrow> m (c # p @ s) = None"
  shows "matchFirst m pre = None \<Longrightarrow>
         replaceFirst m f (pre @ s) = pre @ replaceFirst m f s \<and>
         matchFirst m (pre @ s) = matchFirst m s"
proof (induction pre)
  case Nil
  then show ?case by simp
next
  case (Cons c pre)
  from Cons.prems have 1: "m (c # pre) = None" "matchFirst m pre = None"
    by (auto split: option.splits)
  from q[OF 1(1)] Cons.IH[OF 1(2)] show ?case by simp
qed

lemma outside_LF: "outside LF ''Props''" "outside LF ''See''" "outside LF ''Fixes''"
  by (simp_all add: outside_def LF_def canonicalize_def)

lemma outside_seps:
  "outside (CHR ''|'') ''Fixes''" "outside (CHR '','') ''Fixes''" "outside (CHR '' '') ''Fixes''"
  by (simp_all add: outside_def canonicalize_def)

lemma LF_terminates: "isLineTerminator LF"
  by (simp add: LF_def isLineTerminator_def)

lemma props_stays_none:
  assumes "propsRegex (c # p) = None"
  shows "propsRegex (c # p @ LF # x) = None"
proof (rule ccontr)
  assume "propsRegex (c # p @ LF # x) \<noteq> None"
  then have c: "c = LF" and w: "startsWithI ''Props'' (p @ LF # x)"
    and d: "dotStar (drop 5 (p @ LF # x)) \<noteq> []"
    by (auto simp: propsRegex_def split: if_splits)
  have w': "startsWithI ''Props'' p"
    by (rule startsWithI_before[OF w outside_LF(1)])
  then have "5 \<le> length p" using startsWithI_length[of "''Props''" p] by simp
  then have "dotStar (drop 5 (p @ LF # x)) = dotStar (drop 5 p)"
    by (simp add: dotStar_stop[OF LF_terminates])
  with d c w' have "propsRegex (c # p) \<noteq> None"
    by (simp add: propsRegex_def)
  with assms show False by simp
qed

lemma see_stays_none:
  assumes "reSee (c # p) = None"
  shows "reSee (c # p @ LF # x) = None"
proof (rule ccontr)
  assume "reSee (c # p @ LF # x) \<noteq> None"
  then have c: "c = LF" and w: "startsWithI ''See'' (p @ LF # x)"
    by (auto simp: reSee_def split: if_splits)
  have "startsWithI ''See'' p"
    by (rule startsWithI_before[OF w outside_LF(2)])
  with c have "reSee (c # p) \<noteq> None"
    by (simp add: reSee_def)
  with assms show False by simp
qed

lemma fixes_stays_none:
  assumes "reFixes (c # p) = None" "outside j ''Fixes''"
  shows "reFixes (c # p @ j # x) = None"
proof (rule ccontr)
  assume "reFixes (c # p @ j # x) \<noteq> None"
  then have c: "c = LF \<or> c = CHR ''|'' \<or> c = CHR '','' \<or> c = CHR '' ''"
    and w: "startsWithI ''Fixes'' (p @ j # x)"
    by (auto simp: reFixes_def split: if_splits)
  have "startsWithI ''Fixes'' p"
    by (rule startsWithI_before[OF w assms(2)])
  with c have "reFixes (c # p) \<noteq> None"
    by (simp add: reFixes_def)
  with assms show False by simp
qed

lemma drop_clause:
  "length w = 5 \<Longrightarrow> drop (6 + length rest) (c # w @ rest @ post) = post"
  "length w = 3 \<Longrightarrow> drop (4 + length rest) (c # w @ rest @ post) = post"
proof -
  have d: "drop (Suc (length (w @ rest))) (c # (w @ rest) @ post) = post" by simp
  { assume l: "length w = 5"
    have e: "6 + length rest = Suc (length (w @ rest))" using l by simp
    show "drop (6 + length rest) (c # w @ rest @ post) = post"
      unfolding e using d by simp }
  { assume l: "length w = 3"
    have e: "4 + length rest = Suc (length (w @ rest))" using l by simp
    show "drop (4 + length rest) (c # w @ rest @ post) = post"
      unfolding e using d by simp }
qed

lemma props_here:
  assumes "wordI w ''Props''" "rest \<noteq> []" "lineRest rest post"
  shows "propsRegex (LF # w @ rest @ post) = Some (6 + length rest, butlast rest)"
proof -
  have "drop 5 (w @ rest @ post) = rest @ post"
    using wordI_length[OF assms(1)] by simp
  then show ?thesis
    using wordI_startsWithI[OF assms(1), of "rest @ post"] dotStar_line[OF assms(3)] assms(2)
    by (simp add: propsRegex_def)
qed

lemma see_here:
  assumes "wordI w ''See''" "lineRest rest post"
  shows "reSee (LF # w @ rest @ post) = Some (4 + length rest, rest)"
proof -
  have "drop 3 (w @ rest @ post) = rest @ post"
    using wordI_length[OF assms(1)] by simp
  then show ?thesis
    using wordI_startsWithI[OF assms(1), of "rest @ post"] dotStar_line[OF assms(2)]
    by (simp add: reSee_def)
qed

lemma fixes_here:
  assumes "sep = LF \<or> sep = CHR ''|'' \<or> sep = CHR '','' \<or> sep = CHR '' ''"
    "wordI w ''Fixes''" "lineRest rest post"
  shows "reFixes (sep # w @ rest @ post) = Some (6 + length rest, rest)"
proof -
  have "drop 5 (w @ rest @ post) = rest @ post"
    using wordI_length[OF assms(2)] by simp
  then show ?thesis
    using wordI_startsWithI[OF assms(2), of "rest @ post"] dotStar_line[OF assms(3)] assms(1)
    by (simp add: reFixes_def)
qed

lemma removeProps_first:
  assumes "matchFirst propsRegex pre = None" "wordI w ''Props''" "rest \<noteq> []" "lineRest rest post"
  shows "removeProps (pre @ LF # w @ rest @ post) = pre @ post"
    and "extractProps (pre @ LF # w @ rest @ post) = split (trim (butlast rest))"
proof -
  have s: "replaceFirst propsRegex f (pre @ LF # w @ rest @ post) =
             pre @ replaceFirst propsRegex f (LF # w @ rest @ post) \<and>
           matchFirst propsRegex (pre @ LF # w @ rest @ post) =
             matchFirst propsRegex (LF # w @ rest @ post)" for f
    by (rule replaceFirst_skip[OF _ assms(1)]) (simp add: props_stays_none)
  have l: "length w = 5" using wordI_length[OF assms(2)] by simp
  show "removeProps (pre @ LF # w @ rest @ post) = pre @ post"
    using s props_here[OF assms(2-4)] drop_clause(1)[OF l] by (simp add: removeProps_def)
  show "extractProps (pre @ LF # w @ rest @ post) = split (trim (butlast rest))"
    using s props_here[OF assms(2-4)] by (simp add: extractProps_def)
qed

lemma removeSee_first:
  assumes "matchFirst reSee pre = None" "wordI w ''See''" "lineRest rest post"
  shows "removeSee (pre @ LF # w @ rest @ post) = pre @ post"
proof -
  have s: "replaceFirst reSee f (pre @ LF # w @ rest @ post) =
             pre @ replaceFirst reSee f (LF # w @ rest @ post) \<and>
           matchFirst reSee (pre @ LF # w @ rest @ post) =
             matchFirst reSee (LF # w @ rest @ post)" for f
    by (rule replaceFirst_skip[OF _ assms(1)]) (simp add: see_stays_none)
  have l: "length w = 3" using wordI_length[OF assms(2)] by simp
  show ?thesis
    using s see_here[OF assms(2-3)] drop_clause(2)[OF l] by (simp add: removeSee_def)
qed

lemma removeFixes_first:
  assumes "matchFirst reFixes pre = None"
    "sep = LF \<or> sep = CHR ''|'' \<or> sep = CHR '','' \<or> sep = CHR '' ''"
    "wordI w ''Fixes''" "lineRest rest post"
  shows "removeFixes (pre @ sep # w @ rest @ post) = pre @ post"
proof -
  have o: "outside sep ''Fixes''"
    using assms(2) outside_LF(3) outside_seps by auto
  have s: "replaceFirst reFixes f (pre @ sep # w @ rest @ post) =
             pre @ replaceFirst reFixes f (sep # w @ rest @ post) \<and>
           matchFirst reFixes (pre @ sep # w @ rest @ post) =
             matchFirst reFixes (sep # w @ rest @ post)" for f
    by (rule replaceFirst_skip[OF _ assms(1)]) (simp add: fixes_stays_none[OF _ o])
  have l: "length w = 5" using wordI_length[OF assms(3)] by simp
  show ?thesis
    using s fixes_here[OF assms(2-4)] drop_clause(1)[OF l] by (simp add: removeFixes_def)
qed

lemma contains_append_left: "contains t n \<Longrightarrow> contains (a @ t) n"
  by (induction a) auto

lemma contains_append_right: "contains t n \<Longrightarrow> contains (t @ b) n"
proof (induction t)
  case Nil
  then show ?case by (cases b) (auto simp: startsWith_def)
next
  case (Cons c t)
  have "startsWith n (c # t @ b)" if h: "startsWith n (c # t)"
  proof -
    have e: "take (length n) (c # t) = n" using h by (simp add: startsWith_def)
    then have "length (take (length n) (c # t)) = length n" by (rule arg_cong)
    then have "length n \<le> length (c # t)" by simp
    then have "take (length n) ((c # t) @ b) = take (length n) (c # t)"
      by (simp only: take_append diff_is_0_eq' take_0 append_Nil2)
    with e show ?thesis by (simp add: startsWith_def)
  qed
  with Cons show ?case by auto
qed

lemma trim_infix: "\<exists>a b. s = a @ trim s @ b"
proof -
  define u where "u = dropWhile isWhiteSpace s"
  have "rev (dropWhile isWhiteSpace xs) @ rev (takeWhile isWhiteSpace xs) = rev xs" for xs
    unfolding rev_append[symmetric] by simp
  from this[of "rev u"] have "u = trim s @ rev (takeWhile isWhiteSpace (rev u))"
    by (simp add: trim_def u_def)
  moreover have "s = takeWhile isWhiteSpace s @ u" by (simp add: u_def)
  ultimately have "s = takeWhile isWhiteSpace s @ trim s @ rev (takeWhile isWhiteSpace (rev u))"
    by simp
  then show ?thesis by blast
qed

lemma trim_no_triple: "\<not> contains s n \<Longrightarrow> \<not> contains (trim s) n"
proof
  assume a: "\<not> contains s n" and b: "contains (trim s) n"
  obtain x y where s: "s = x @ trim s @ y" using trim_infix by blast
  have "contains (x @ trim s @ y) n"
    by (intro contains_append_left contains_append_right b)
  with s a show False by simp
qed

lemma replaceFirst_none: "matchFirst m d = None \<Longrightarrow> replaceFirst m f d = d"
  by (induction d) (auto split: option.splits)

lemma no_clause:
  assumes "matchFirst reFixes t = None" "matchFirst reSee t = None" "matchFirst propsRegex t = None"
  shows "removeProps (removeSee (removeFixes t)) = t"
    and "extractProps (removeSee (removeFixes t)) = []"
proof -
  have f: "removeFixes t = t" using assms(1) by (simp add: removeFixes_def replaceFirst_none)
  have s: "removeSee t = t" using assms(2) by (simp add: removeSee_def replaceFirst_none)
  show "removeProps (removeSee (removeFixes t)) = t"
    using assms(3) by (simp add: f s removeProps_def replaceFirst_none)
  show "extractProps (removeSee (removeFixes t)) = []"
    using assms(3) by (simp add: f s extractProps_def)
qed

lemma props_then_fixes:
  assumes "matchFirst reFixes (body @ LF # wordP @ restP) = None" "wordI wordF ''Fixes''" "lineRest restF post"
    "matchFirst reSee (body @ LF # wordP @ restP @ post) = None"
    "matchFirst propsRegex body = None" "wordI wordP ''Props''" "restP \<noteq> []" "lineRest restP post"
  shows "removeProps (removeSee (removeFixes (body @ LF # wordP @ restP @ LF # wordF @ restF @ post))) = body @ post"
    and "extractProps (removeSee (removeFixes (body @ LF # wordP @ restP @ LF # wordF @ restF @ post))) =
           split (trim (butlast restP))"
proof -
  have "removeFixes ((body @ LF # wordP @ restP) @ LF # wordF @ restF @ post) = (body @ LF # wordP @ restP) @ post"
    by (rule removeFixes_first[OF assms(1) _ assms(2,3)]) simp
  then have f: "removeFixes (body @ LF # wordP @ restP @ LF # wordF @ restF @ post) = body @ LF # wordP @ restP @ post"
    by simp
  have s: "removeSee (body @ LF # wordP @ restP @ post) = body @ LF # wordP @ restP @ post"
    using assms(4) by (simp add: removeSee_def replaceFirst_none)
  show "removeProps (removeSee (removeFixes (body @ LF # wordP @ restP @ LF # wordF @ restF @ post))) = body @ post"
    unfolding f s by (rule removeProps_first(1)[OF assms(5-8)])
  show "extractProps (removeSee (removeFixes (body @ LF # wordP @ restP @ LF # wordF @ restF @ post))) =
           split (trim (butlast restP))"
    unfolding f s by (rule removeProps_first(2)[OF assms(5-8)])
qed

lemma buildChangeset_fields:
  "description (buildChangeset parse r1 r2) =
     trim (collapseBlankLines (removeProps (removeSee (removeFixes (cellText (reAddCode parse (log_cell r2)))))))"
  "props (buildChangeset parse r1 r2) =
     extractProps (removeSee (removeFixes (cellText (reAddCode parse (log_cell r2)))))"
  by (simp_all add: buildChangeset_def Let_def)

text \<open>
  C5, as the script has it. The description of every extracted changeset holds no run of
  three newlines and neither starts nor ends with white space. The three removals run
  in the order \<open>Fixes\<close>, \<open>See\<close>, \<open>Props\<close>, each on what the one before has left.
  A removal deletes the first match of its expression and nothing else: the first
  \<open>Fixes\<close> after a newline, bar, comma or space, the first \<open>See\<close> after a newline
  and the first \<open>Props\<close> after a newline that has a character after it on its line,
  each with the rest of its line; a text without a match it leaves as it is. The
  \<open>Props\<close> clause goes whatever names were read from it. So a message without any
  match is only collapsed and trimmed, and of a message that ends with a \<open>Props\<close>
  line and a \<open>Fixes\<close> line, the first matches of their expressions, with no match
  of \<open>See\<close>, the text before the two lines is the description and the names of the
  \<open>Props\<close> line are the props.
\<close>

theorem description_invariant:
  "\<not> contains (description (buildChangeset parse r1 r2)) [LF, LF, LF] \<and>
   trim (description (buildChangeset parse r1 r2)) = description (buildChangeset parse r1 r2) \<and>
   (description (buildChangeset parse r1 r2) = [] \<or>
      (\<not> isWhiteSpace (hd (description (buildChangeset parse r1 r2))) \<and>
       \<not> isWhiteSpace (last (description (buildChangeset parse r1 r2))))) \<and>
   description (buildChangeset parse r1 r2) =
     trim (collapseBlankLines (removeProps (removeSee (removeFixes (cellText (reAddCode parse (log_cell r2))))))) \<and>
   (matchFirst reFixes pre = None \<and>
    (sep = LF \<or> sep = CHR ''|'' \<or> sep = CHR '','' \<or> sep = CHR '' '') \<and>
    wordI w ''Fixes'' \<and> lineRest rest post \<longrightarrow>
      removeFixes (pre @ sep # w @ rest @ post) = pre @ post) \<and>
   (matchFirst reSee pre = None \<and> wordI w ''See'' \<and> lineRest rest post \<longrightarrow>
      removeSee (pre @ LF # w @ rest @ post) = pre @ post) \<and>
   (matchFirst propsRegex pre = None \<and> wordI w ''Props'' \<and> rest \<noteq> [] \<and> lineRest rest post \<longrightarrow>
      removeProps (pre @ LF # w @ rest @ post) = pre @ post \<and>
      extractProps (pre @ LF # w @ rest @ post) = split (trim (butlast rest))) \<and>
   (matchFirst reFixes d = None \<longrightarrow> removeFixes d = d) \<and>
   (matchFirst reSee d = None \<longrightarrow> removeSee d = d) \<and>
   (matchFirst propsRegex d = None \<longrightarrow> removeProps d = d \<and> extractProps d = []) \<and>
   (matchFirst reFixes (cellText (reAddCode parse (log_cell r2))) = None \<and>
    matchFirst reSee (cellText (reAddCode parse (log_cell r2))) = None \<and>
    matchFirst propsRegex (cellText (reAddCode parse (log_cell r2))) = None \<longrightarrow>
      description (buildChangeset parse r1 r2) =
        trim (collapseBlankLines (cellText (reAddCode parse (log_cell r2)))) \<and>
      props (buildChangeset parse r1 r2) = []) \<and>
   (cellText (reAddCode parse (log_cell r2)) = body @ LF # wordP @ restP @ LF # wordF @ restF @ trailer \<and>
    matchFirst propsRegex body = None \<and> wordI wordP ''Props'' \<and> restP \<noteq> [] \<and> lineRest restP trailer \<and>
    matchFirst reFixes (body @ LF # wordP @ restP) = None \<and> wordI wordF ''Fixes'' \<and> lineRest restF trailer \<and>
    matchFirst reSee (body @ LF # wordP @ restP @ trailer) = None \<longrightarrow>
      description (buildChangeset parse r1 r2) = trim (collapseBlankLines (body @ trailer)) \<and>
      props (buildChangeset parse r1 r2) = split (trim (butlast restP)))"
proof -
  note d = buildChangeset_fields(1)[of parse r1 r2]
  have 1: "\<not> contains (description (buildChangeset parse r1 r2)) [LF, LF, LF]"
    unfolding d by (rule trim_no_triple[OF collapse_no_triple])
  have 2: "trim (description (buildChangeset parse r1 r2)) = description (buildChangeset parse r1 r2)"
    by (rule description_trimmed)
  have 3: "description (buildChangeset parse r1 r2) = [] \<or>
      (\<not> isWhiteSpace (hd (description (buildChangeset parse r1 r2))) \<and>
       \<not> isWhiteSpace (last (description (buildChangeset parse r1 r2))))"
    unfolding d by (rule trim_ends)
  have 5: "matchFirst reFixes pre = None \<and>
    (sep = LF \<or> sep = CHR ''|'' \<or> sep = CHR '','' \<or> sep = CHR '' '') \<and>
    wordI w ''Fixes'' \<and> lineRest rest post \<longrightarrow>
      removeFixes (pre @ sep # w @ rest @ post) = pre @ post"
    using removeFixes_first[of pre sep w rest post] by blast
  have 6: "matchFirst reSee pre = None \<and> wordI w ''See'' \<and> lineRest rest post \<longrightarrow>
      removeSee (pre @ LF # w @ rest @ post) = pre @ post"
    using removeSee_first[of pre w rest post] by blast
  have 7: "matchFirst propsRegex pre = None \<and> wordI w ''Props'' \<and> rest \<noteq> [] \<and> lineRest rest post \<longrightarrow>
      removeProps (pre @ LF # w @ rest @ post) = pre @ post \<and>
      extractProps (pre @ LF # w @ rest @ post) = split (trim (butlast rest))"
    using removeProps_first[of pre w rest post] by blast
  have 8: "matchFirst reFixes d = None \<longrightarrow> removeFixes d = d"
    by (simp add: removeFixes_def replaceFirst_none)
  have 9: "matchFirst reSee d = None \<longrightarrow> removeSee d = d"
    by (simp add: removeSee_def replaceFirst_none)
  have 10: "matchFirst propsRegex d = None \<longrightarrow> removeProps d = d \<and> extractProps d = []"
    by (simp add: removeProps_def extractProps_def replaceFirst_none)
  have 11: "matchFirst reFixes (cellText (reAddCode parse (log_cell r2))) = None \<and>
    matchFirst reSee (cellText (reAddCode parse (log_cell r2))) = None \<and>
    matchFirst propsRegex (cellText (reAddCode parse (log_cell r2))) = None \<longrightarrow>
      description (buildChangeset parse r1 r2) =
        trim (collapseBlankLines (cellText (reAddCode parse (log_cell r2)))) \<and>
      props (buildChangeset parse r1 r2) = []"
    unfolding buildChangeset_fields
    using no_clause[of "cellText (reAddCode parse (log_cell r2))"] by simp
  have 12: "cellText (reAddCode parse (log_cell r2)) = body @ LF # wordP @ restP @ LF # wordF @ restF @ trailer \<and>
    matchFirst propsRegex body = None \<and> wordI wordP ''Props'' \<and> restP \<noteq> [] \<and> lineRest restP trailer \<and>
    matchFirst reFixes (body @ LF # wordP @ restP) = None \<and> wordI wordF ''Fixes'' \<and> lineRest restF trailer \<and>
    matchFirst reSee (body @ LF # wordP @ restP @ trailer) = None \<longrightarrow>
      description (buildChangeset parse r1 r2) = trim (collapseBlankLines (body @ trailer)) \<and>
      props (buildChangeset parse r1 r2) = split (trim (butlast restP))"
  proof
    assume a: "cellText (reAddCode parse (log_cell r2)) = body @ LF # wordP @ restP @ LF # wordF @ restF @ trailer \<and>
      matchFirst propsRegex body = None \<and> wordI wordP ''Props'' \<and> restP \<noteq> [] \<and> lineRest restP trailer \<and>
      matchFirst reFixes (body @ LF # wordP @ restP) = None \<and> wordI wordF ''Fixes'' \<and> lineRest restF trailer \<and>
      matchFirst reSee (body @ LF # wordP @ restP @ trailer) = None"
    then have e: "cellText (reAddCode parse (log_cell r2)) = body @ LF # wordP @ restP @ LF # wordF @ restF @ trailer"
      by blast
    from a have p: "removeProps (removeSee (removeFixes (body @ LF # wordP @ restP @ LF # wordF @ restF @ trailer))) = body @ trailer"
      "extractProps (removeSee (removeFixes (body @ LF # wordP @ restP @ LF # wordF @ restF @ trailer))) =
           split (trim (butlast restP))"
      using props_then_fixes[of body wordP restP wordF restF trailer] by blast+
    show "description (buildChangeset parse r1 r2) = trim (collapseBlankLines (body @ trailer)) \<and>
      props (buildChangeset parse r1 r2) = split (trim (butlast restP))"
      unfolding buildChangeset_fields e p by simp
  qed
  from 1 2 3 d 5 6 7 8 9 10 11 12 show ?thesis by blast
qed

lemma example_clause:
  "matchFirst propsRegex ''Fix.'' = None" "wordI ''props'' ''Props''" "lineRest '' bob.'' ''\<newline>More.''"
  "matchFirst reSee ''Fix.'' = None" "wordI ''SEE'' ''See''" "lineRest '' #1'' ''\<newline>More.''"
  "matchFirst reFixes ''Fix.'' = None" "wordI ''fixes'' ''Fixes''"
  "split (trim (butlast '' bob.'')) = [''bob'']"
  by code_simp+

lemma example_message:
  "cellText (reAddCode plainText (log_cell exampleLogRow)) =
     ''Fix the `foo` bug.\<newline>'' @ LF # ''Props'' @ '' bob.'' @ LF # ''Fixes'' @ '' #12.'' @ []"
  "matchFirst propsRegex ''Fix the `foo` bug.\<newline>'' = None" "wordI ''Props'' ''Props''"
  "lineRest '' bob.'' []"
  "matchFirst reFixes (''Fix the `foo` bug.\<newline>'' @ LF # ''Props'' @ '' bob.'') = None"
  "wordI ''Fixes'' ''Fixes''" "lineRest '' #12.'' []"
  "matchFirst reSee (''Fix the `foo` bug.\<newline>'' @ LF # ''Props'' @ '' bob.'' @ []) = None"
  "trim (collapseBlankLines (''Fix the `foo` bug.\<newline>'' @ [])) = ''Fix the `foo` bug.''"
  by code_simp+

lemma example_quiet:
  "cellText (reAddCode plainText (log_cell examplePropsRow)) = ''Props jane.''"
  "matchFirst reFixes ''Props jane.'' = None"
  "matchFirst reSee ''Props jane.'' = None"
  "matchFirst propsRegex ''Props jane.'' = None"
  "trim (collapseBlankLines ''Props jane.'') = ''Props jane.''"
  by code_simp+

theorem description_invariant_witness:
  "\<not> contains (description (buildChangeset plainText exampleRevRow exampleLogRow)) [LF, LF, LF] \<and>
   trim (description (buildChangeset plainText exampleRevRow exampleLogRow)) =
     description (buildChangeset plainText exampleRevRow exampleLogRow) \<and>
   removeFixes (''Fix.'' @ CHR '','' # ''fixes'' @ '' #1'' @ ''\<newline>More.'') = ''Fix.'' @ ''\<newline>More.'' \<and>
   removeSee (''Fix.'' @ LF # ''SEE'' @ '' #1'' @ ''\<newline>More.'') = ''Fix.'' @ ''\<newline>More.'' \<and>
   removeProps (''Fix.'' @ LF # ''props'' @ '' bob.'' @ ''\<newline>More.'') = ''Fix.'' @ ''\<newline>More.'' \<and>
   extractProps (''Fix.'' @ LF # ''props'' @ '' bob.'' @ ''\<newline>More.'') = [''bob''] \<and>
   removeFixes ''Fix.'' = ''Fix.'' \<and> removeSee ''Fix.'' = ''Fix.'' \<and>
   removeProps ''Fix.'' = ''Fix.'' \<and> extractProps ''Fix.'' = [] \<and>
   description (buildChangeset plainText exampleRevRow examplePropsRow) = ''Props jane.'' \<and>
   props (buildChangeset plainText exampleRevRow examplePropsRow) = [] \<and>
   description (buildChangeset plainText exampleRevRow exampleLogRow) = ''Fix the `foo` bug.'' \<and>
   props (buildChangeset plainText exampleRevRow exampleLogRow) = [''bob'']"
proof -
  note a = description_invariant [of plainText exampleRevRow exampleLogRow "''Fix.''" "CHR '',''" "''fixes''"
      "'' #1''" "''\<newline>More.''" "''Fix.''" "''Fix the `foo` bug.\<newline>''" "''Props''" "'' bob.''"
      "''Fixes''" "'' #12.''" "[]"]
  note b = description_invariant [of plainText exampleRevRow exampleLogRow "''Fix.''" "CHR '',''" "''SEE''"
      "'' #1''" "''\<newline>More.''" "''Fix.''" "''Fix the `foo` bug.\<newline>''" "''Props''" "'' bob.''"
      "''Fixes''" "'' #12.''" "[]"]
  note c = description_invariant [of plainText exampleRevRow exampleLogRow "''Fix.''" "CHR '',''" "''props''"
      "'' bob.''" "''\<newline>More.''" "''Fix.''" "''Fix the `foo` bug.\<newline>''" "''Props''" "'' bob.''"
      "''Fixes''" "'' #12.''" "[]"]
  note q = description_invariant [of plainText exampleRevRow examplePropsRow "''Fix.''" "CHR '',''" "''props''"
      "'' bob.''" "''\<newline>More.''" "''Fix.''" "''Fix the `foo` bug.\<newline>''" "''Props''" "'' bob.''"
      "''Fixes''" "'' #12.''" "[]"]
  have 1: "\<not> contains (description (buildChangeset plainText exampleRevRow exampleLogRow)) [LF, LF, LF] \<and>
   trim (description (buildChangeset plainText exampleRevRow exampleLogRow)) =
     description (buildChangeset plainText exampleRevRow exampleLogRow)"
    using a by blast
  have 2: "removeFixes (''Fix.'' @ CHR '','' # ''fixes'' @ '' #1'' @ ''\<newline>More.'') = ''Fix.'' @ ''\<newline>More.''"
    using a example_clause by blast
  have 3: "removeSee (''Fix.'' @ LF # ''SEE'' @ '' #1'' @ ''\<newline>More.'') = ''Fix.'' @ ''\<newline>More.''"
    using b example_clause by blast
  have 4: "removeProps (''Fix.'' @ LF # ''props'' @ '' bob.'' @ ''\<newline>More.'') = ''Fix.'' @ ''\<newline>More.'' \<and>
   extractProps (''Fix.'' @ LF # ''props'' @ '' bob.'' @ ''\<newline>More.'') = [''bob'']"
    using c example_clause by simp
  have 5: "removeFixes ''Fix.'' = ''Fix.'' \<and> removeSee ''Fix.'' = ''Fix.'' \<and>
   removeProps ''Fix.'' = ''Fix.'' \<and> extractProps ''Fix.'' = []"
    using a example_clause by blast
  have 6: "description (buildChangeset plainText exampleRevRow examplePropsRow) = ''Props jane.'' \<and>
   props (buildChangeset plainText exampleRevRow examplePropsRow) = []"
  proof -
    have h: "matchFirst reFixes (cellText (reAddCode plainText (log_cell examplePropsRow))) = None"
      "matchFirst reSee (cellText (reAddCode plainText (log_cell examplePropsRow))) = None"
      "matchFirst propsRegex (cellText (reAddCode plainText (log_cell examplePropsRow))) = None"
      unfolding example_quiet(1) by (rule example_quiet(2-4))+
    have "description (buildChangeset plainText exampleRevRow examplePropsRow) =
            trim (collapseBlankLines (cellText (reAddCode plainText (log_cell examplePropsRow)))) \<and>
          props (buildChangeset plainText exampleRevRow examplePropsRow) = []"
      using q h by blast
    then show ?thesis
      unfolding example_quiet(1) example_quiet(5) .
  qed
  have nonempty: "'' bob.'' \<noteq> []" by simp
  have 7: "description (buildChangeset plainText exampleRevRow exampleLogRow) = ''Fix the `foo` bug.'' \<and>
   props (buildChangeset plainText exampleRevRow exampleLogRow) = [''bob'']"
  proof -
    have "description (buildChangeset plainText exampleRevRow exampleLogRow) =
            trim (collapseBlankLines (''Fix the `foo` bug.\<newline>'' @ [])) \<and>
          props (buildChangeset plainText exampleRevRow exampleLogRow) = split (trim (butlast '' bob.''))"
      using a example_message(1-8) nonempty by blast
    then show ?thesis
      unfolding example_message(9) example_clause(9) .
  qed
  from 1 2 3 4 5 6 7 show ?thesis by blast
qed

text \<open>
  A second line of the same kind stays: the expressions still match the final
  description. A later clause need not stay either: a \<open>Fixes\<close> on the line of the
  first \<open>See\<close> goes with that line.
\<close>

theorem description_invariant_counterexample:
  "description (buildChangeset plainText exampleRevRow exampleTwoSee) = ''Fix.\<newline>See #2'' \<and>
   matchFirst reSee (description (buildChangeset plainText exampleRevRow exampleTwoSee)) = Some '' #2'' \<and>
   description (buildChangeset plainText exampleRevRow exampleTwoProps) = ''Fix.\<newline>Props b.'' \<and>
   matchFirst propsRegex (description (buildChangeset plainText exampleRevRow exampleTwoProps)) = Some '' b'' \<and>
   description (buildChangeset plainText exampleRevRow exampleSeeFixes) = ''x''"
  by code_simp

end
